theory Spec2Isabelle
  imports Complex_Main "HOL-Library.Sublist" "HOL-Library.Multiset"
begin

chapter \<open>The retrieval core of HermesContext (src/src/engine.py)\<close>

text \<open>
  A shallow embedding of \<^verbatim>\<open>RAGEngine\<close>: the chunker \<^verbatim>\<open>_split_text\<close>, the enricher
  \<^verbatim>\<open>_enrich_chunk\<close>, Reciprocal Rank Fusion, the cross-encoder reranking step, the query
  cache and the \<^verbatim>\<open>search\<close> pipeline.

  Conventions of the model.
  \<^item> A Python \<^verbatim>\<open>str\<close> is a \<open>string\<close>; each \<open>char\<close> stands for one code point below 256.
  \<^item> A Python \<^verbatim>\<open>int\<close> is an \<open>int\<close>; a \<^verbatim>\<open>float\<close> is an exact \<open>rat\<close> (the rounding
    error of binary floating point is not modelled, the explicit calls of \<^verbatim>\<open>round\<close> are).
  \<^item> Every exception the code can raise is a value \<open>Inl e\<close> of a sum type.
\<close>

section \<open>Python primitives\<close>

datatype error =
    ValueError
  | ZeroDivisionError
  | KeyError
  | TypeError
  | External string

text \<open>The code points below 256 for which \<^verbatim>\<open>str.isspace\<close> holds.\<close>

definition is_space :: "char \<Rightarrow> bool" where
  "is_space c = (of_char c \<in> {9, 10, 11, 12, 13, 28, 29, 30, 31, 32, 133, 160 :: nat})"

text \<open>\<^verbatim>\<open>s.split()\<close>: the maximal runs of non-whitespace, in order.\<close>

function split_ws :: "string \<Rightarrow> string list" where
  "split_ws [] = []"
| "split_ws (c # cs) =
     (if is_space c then split_ws cs
      else takeWhile (\<lambda>x. \<not> is_space x) (c # cs) # split_ws (dropWhile (\<lambda>x. \<not> is_space x) cs))"
  by pat_completeness auto
termination
  by (relation "measure length") (auto simp: less_Suc_eq_le length_dropWhile_le)

text \<open>\<^verbatim>\<open>s.strip()\<close>.\<close>

definition strip :: "string \<Rightarrow> string" where
  "strip s = rev (dropWhile is_space (rev (dropWhile is_space s)))"

text \<open>\<^verbatim>\<open>sep.join(parts)\<close>.\<close>

fun join :: "string \<Rightarrow> string list \<Rightarrow> string" where
  "join sep [] = []"
| "join sep [p] = p"
| "join sep (p # q # ps) = p @ sep @ join sep (q # ps)"

text \<open>
  \<^verbatim>\<open>s.split(sep)\<close> for a non-empty \<open>sep\<close>: the text is cut at the occurrences of \<open>sep\<close>
  found from left to right, an occurrence starting only after the previous one has ended.
  The caller checks for the empty separator, on which Python raises.
\<close>

function split_sep :: "string \<Rightarrow> string \<Rightarrow> string list" where
  "split_sep sep [] = [[]]"
| "split_sep sep (c # cs) =
     (if sep \<noteq> [] \<and> prefix sep (c # cs) then [] # split_sep sep (drop (length sep) (c # cs))
      else (case split_sep sep cs of [] \<Rightarrow> [[c]] | p # ps \<Rightarrow> (c # p) # ps))"
  by pat_completeness auto
termination
  by (relation "measure (\<lambda>(sep, s). length s)") auto

definition py_split :: "string \<Rightarrow> string \<Rightarrow> error + string list" where
  "py_split s sep = (if sep = [] then Inl ValueError else Inr (split_sep sep s))"

text \<open>
  \<^verbatim>\<open>xs[start:stop]\<close>: a negative bound counts from the end, and both bounds are clamped to the
  list.
\<close>

definition py_slice :: "'a list \<Rightarrow> int \<Rightarrow> int \<Rightarrow> 'a list" where
  "py_slice xs start stop =
     (let n = int (length xs);
          clamp = (\<lambda>k. if k < 0 then max 0 (k + n) else min k n);
          lo = clamp start;
          hi = clamp stop
      in take (nat (hi - lo)) (drop (nat lo) xs))"

text \<open>
  \<^verbatim>\<open>range(0, n, step)\<close> for \<open>n \<ge> 0\<close>: Python raises \<^verbatim>\<open>ValueError\<close> on a zero step, and a
  negative step from 0 up to \<open>n\<close> gives the empty range.
\<close>

definition py_range :: "nat \<Rightarrow> int \<Rightarrow> error + nat list" where
  "py_range n step =
     (if step = 0 then Inl ValueError
      else if step < 0 then Inr []
      else Inr (map (\<lambda>j. j * nat step) [0 ..< (n + nat step - 1) div nat step]))"

text \<open>\<^verbatim>\<open>str(i)\<close> for an integer: its decimal digits, with a sign when negative.\<close>

definition digit_char :: "nat \<Rightarrow> char" where
  "digit_char d = ''0123456789'' ! d"

fun digits :: "nat \<Rightarrow> string" where
  "digits n = (if n < 10 then [digit_char n] else digits (n div 10) @ [digit_char (n mod 10)])"

declare digits.simps [simp del]

definition str_int :: "int \<Rightarrow> string" where
  "str_int i = (if i < 0 then CHR ''-'' # digits (nat (- i)) else digits (nat i))"

text \<open>
  \<^verbatim>\<open>round(x, ndigits)\<close>: to the nearest multiple of \<open>10 ^ -ndigits\<close>, a tie going to the even
  one.
\<close>

definition round_half_even :: "rat \<Rightarrow> int" where
  "round_half_even x =
     (let f = \<lfloor>x\<rfloor>; d = x - of_int f
      in if d < 1 / 2 then f else if 1 / 2 < d then f + 1 else if even f then f else f + 1)"

definition py_round :: "rat \<Rightarrow> nat \<Rightarrow> rat" where
  "py_round x ndigits = of_int (round_half_even (x * 10 ^ ndigits)) / 10 ^ ndigits"

section \<open>Configuration (src/src/config.py)\<close>

record settings =
  chunk_size :: int
  chunk_overlap :: int
  chunk_separators :: "string list"
  retrieval_top_k :: int
  rerank_top_k :: int
  vector_weight :: rat
  keyword_weight :: rat
  rrf_k :: int
  cache_ttl_seconds :: int

definition default_settings :: settings where
  "default_settings =
     \<lparr>chunk_size = 512, chunk_overlap = 64,
      chunk_separators = [''\<newline>\<newline>'', ''\<newline>'', ''. '', '', '', '' ''],
      retrieval_top_k = 20, rerank_top_k = 5,
      vector_weight = 7 / 10, keyword_weight = 3 / 10, rrf_k = 60,
      cache_ttl_seconds = 3600\<rparr>"

section \<open>Chunker: \<^verbatim>\<open>_split_text\<close>\<close>

text \<open>
  The \<^verbatim>\<open>for sep in separators\<close> loop: the first separator that cuts the text into more than
  one part, with these parts; \<open>None\<close> when the loop ends without \<^verbatim>\<open>break\<close>.
\<close>

fun find_separator :: "string \<Rightarrow> string list \<Rightarrow> error + (string \<times> string list) option" where
  "find_separator text [] = Inr None"
| "find_separator text (sep # seps) =
     (case py_split text sep of
        Inl e \<Rightarrow> Inl e
      | Inr parts \<Rightarrow> if length parts > 1 then Inr (Some (sep, parts)) else find_separator text seps)"

text \<open>
  The fallback of the \<^verbatim>\<open>for ... else\<close>: windows of \<open>csize\<close> words, stepping by
  \<open>csize - overlap\<close> (\<open>csize\<close> is the parameter \<^verbatim>\<open>chunk_size\<close>).
\<close>

definition word_windows :: "string \<Rightarrow> int \<Rightarrow> int \<Rightarrow> error + string list" where
  "word_windows text csize overlap =
     (let words = split_ws text
      in case py_range (length words) (csize - overlap) of
           Inl e \<Rightarrow> Inl e
         | Inr starts \<Rightarrow>
             (let parts = map (\<lambda>i. join '' '' (py_slice words (int i) (int i + csize))) starts
              in Inr (map strip (filter (\<lambda>p. strip p \<noteq> []) parts))))"

text \<open>
  The inner loop \<^verbatim>\<open>for p in reversed(current)\<close>: the trailing parts kept as overlap. The
  second argument is the reversed \<open>current\<close> still to visit.
\<close>

fun overlap_tail :: "int \<Rightarrow> string list \<Rightarrow> string list \<Rightarrow> int \<Rightarrow> string list \<times> int" where
  "overlap_tail overlap [] overlap_parts overlap_len = (overlap_parts, overlap_len)"
| "overlap_tail overlap (p # ps) overlap_parts overlap_len =
     (let plen = int (length (split_ws p))
      in if overlap_len + plen > overlap then (overlap_parts, overlap_len)
         else overlap_tail overlap ps (p # overlap_parts) (overlap_len + plen))"

text \<open>\<^verbatim>\<open>chunk_text = sep.join(current).strip(); if chunk_text: chunks.append(chunk_text)\<close>.\<close>

definition flush :: "string \<Rightarrow> string list \<Rightarrow> string list \<Rightarrow> string list" where
  "flush sep current chunks =
     (let chunk_text = strip (join sep current)
      in if chunk_text \<noteq> [] then chunks @ [chunk_text] else chunks)"

text \<open>The loop \<^verbatim>\<open>for part in parts\<close> and the flush of the trailing segment after it.\<close>

fun accumulate ::
  "string \<Rightarrow> int \<Rightarrow> int \<Rightarrow> string list \<Rightarrow> string list \<Rightarrow> int \<Rightarrow> string list \<Rightarrow> string list"
where
  "accumulate sep csize overlap [] current current_len chunks =
     (if current \<noteq> [] then flush sep current chunks else chunks)"
| "accumulate sep csize overlap (part # parts) current current_len chunks =
     (let part_len = int (length (split_ws part))
      in if current_len + part_len > csize \<and> current \<noteq> [] then
           (let chunks' = flush sep current chunks;
                (overlap_parts, overlap_len) = overlap_tail overlap (rev current) [] 0
            in accumulate sep csize overlap parts (overlap_parts @ [part]) (overlap_len + part_len)
                 chunks')
         else accumulate sep csize overlap parts (current @ [part]) (current_len + part_len) chunks)"

definition split_text :: "string \<Rightarrow> int \<Rightarrow> int \<Rightarrow> string list \<Rightarrow> error + string list" where
  "split_text text csize overlap separators =
     (if int (length (split_ws text)) \<le> csize then
        Inr (if strip text \<noteq> [] then [strip text] else [])
      else
        (case find_separator text separators of
           Inl e \<Rightarrow> Inl e
         | Inr None \<Rightarrow> word_windows text csize overlap
         | Inr (Some (sep, parts)) \<Rightarrow> Inr (accumulate sep csize overlap parts [] 0 [])))"

section \<open>Enricher: \<^verbatim>\<open>_enrich_chunk\<close>\<close>

text \<open>
  \<^verbatim>\<open>doc_type\<close> is \<^verbatim>\<open>str | None\<close>; the test \<^verbatim>\<open>if doc_type\<close> fails on \<^verbatim>\<open>None\<close> and on the
  empty string.
\<close>

definition enrich_chunk :: "string \<Rightarrow> string \<Rightarrow> int \<Rightarrow> string option \<Rightarrow> string" where
  "enrich_chunk chunk_text doc_title chunk_index doc_type =
     (let prefix_parts = [''Documento: '' @ doc_title];
          prefix_parts = (case doc_type of
                            None \<Rightarrow> prefix_parts
                          | Some t \<Rightarrow> if t \<noteq> [] then prefix_parts @ [''Tipo: '' @ t]
                                     else prefix_parts);
          prefix_parts = prefix_parts @ [''Trecho '' @ str_int (chunk_index + 1)];
          prefix = join '' | '' prefix_parts
      in ''['' @ prefix @ ''] '' @ chunk_text)"

text \<open>
  The enricher as the specification words it (section 4.2): the labels \<^verbatim>\<open>Document\<close>,
  \<^verbatim>\<open>Type\<close> and \<^verbatim>\<open>Segment\<close>, the type whenever one is given.
\<close>

definition enrich_spec :: "string \<Rightarrow> string \<Rightarrow> int \<Rightarrow> string option \<Rightarrow> string" where
  "enrich_spec segment_text title segment_index doc_type =
     ''['' @ join '' | ''
        ([''Document: '' @ title]
         @ (case doc_type of None \<Rightarrow> [] | Some t \<Rightarrow> [''Type: '' @ t])
         @ [''Segment '' @ str_int (segment_index + 1)])
      @ ''] '' @ segment_text"

section \<open>Candidates\<close>

text \<open>
  A candidate is the dictionary a search returns for one chunk (src/src/database.py:
  \<^verbatim>\<open>vector_search\<close>, \<^verbatim>\<open>keyword_search\<close>), with the two scores the pipeline adds. A key
  that may be missing, or hold \<^verbatim>\<open>None\<close>, is an \<open>option\<close>.
\<close>

record candidate =
  chunk_id :: int
  chunk_text :: string
  enriched_text :: "string option"
  document_id :: int
  document_title :: string
  distance :: "rat option"
  score :: rat
  rrf_score :: "rat option"
  rerank_score :: "rat option"

section \<open>Fusion: \<^verbatim>\<open>_reciprocal_rank_fusion\<close>\<close>

text \<open>
  The dictionary \<^verbatim>\<open>scores\<close> keeps its keys in the order of their first insertion, which is
  the order \<^verbatim>\<open>sorted\<close> starts from: it is an association list.
  \<open>add_score\<close> is \<^verbatim>\<open>scores[cid] = scores.get(cid, 0.0) + x\<close>.
\<close>

fun add_score :: "(int \<times> rat) list \<Rightarrow> int \<Rightarrow> rat \<Rightarrow> (int \<times> rat) list" where
  "add_score [] cid x = [(cid, 0 + x)]"
| "add_score ((c, s) # rest) cid x =
     (if c = cid then (c, s + x) # rest else (c, s) # add_score rest cid x)"

text \<open>\<^verbatim>\<open>weight / (k + rank + 1)\<close>; Python raises on a zero divisor.\<close>

definition rank_share :: "rat \<Rightarrow> int \<Rightarrow> nat \<Rightarrow> error + rat" where
  "rank_share weight k rank =
     (if k + int rank + 1 = 0 then Inl ZeroDivisionError
      else Inr (weight / of_int (k + int rank + 1)))"

text \<open>The loop over \<^verbatim>\<open>enumerate(vector_results)\<close>, from the given rank on.\<close>

fun fuse_vector ::
  "settings \<Rightarrow> int \<Rightarrow> nat \<Rightarrow> candidate list \<Rightarrow> (int \<times> rat) list \<Rightarrow> (int \<rightharpoonup> candidate)
     \<Rightarrow> error + ((int \<times> rat) list \<times> (int \<rightharpoonup> candidate))"
where
  "fuse_vector cfg k rank [] scores chunk_map = Inr (scores, chunk_map)"
| "fuse_vector cfg k rank (r # rs) scores chunk_map =
     (let cid = chunk_id r
      in case rank_share (vector_weight cfg) k rank of
           Inl e \<Rightarrow> Inl e
         | Inr x \<Rightarrow> fuse_vector cfg k (Suc rank) rs (add_score scores cid x) (chunk_map(cid \<mapsto> r)))"

text \<open>The loop over \<^verbatim>\<open>enumerate(keyword_results)\<close>: the first record seen for an id stays.\<close>

fun fuse_keyword ::
  "settings \<Rightarrow> int \<Rightarrow> nat \<Rightarrow> candidate list \<Rightarrow> (int \<times> rat) list \<Rightarrow> (int \<rightharpoonup> candidate)
     \<Rightarrow> error + ((int \<times> rat) list \<times> (int \<rightharpoonup> candidate))"
where
  "fuse_keyword cfg k rank [] scores chunk_map = Inr (scores, chunk_map)"
| "fuse_keyword cfg k rank (r # rs) scores chunk_map =
     (let cid = chunk_id r
      in case rank_share (keyword_weight cfg) k rank of
           Inl e \<Rightarrow> Inl e
         | Inr x \<Rightarrow>
             fuse_keyword cfg k (Suc rank) rs (add_score scores cid x)
               (if chunk_map cid = None then chunk_map(cid \<mapsto> r) else chunk_map))"

text \<open>
  The loop over \<^verbatim>\<open>ranked\<close>: a copy of the record of each id, with the score rounded to six
  decimals.
\<close>

fun attach_rrf :: "(int \<rightharpoonup> candidate) \<Rightarrow> (int \<times> rat) list \<Rightarrow> error + candidate list" where
  "attach_rrf chunk_map [] = Inr []"
| "attach_rrf chunk_map ((cid, s) # ranked) =
     (case chunk_map cid of
        None \<Rightarrow> Inl KeyError
      | Some item \<Rightarrow>
          (case attach_rrf chunk_map ranked of
             Inl e \<Rightarrow> Inl e
           | Inr results \<Rightarrow> Inr (item\<lparr>rrf_score := Some (py_round s 6)\<rparr> # results)))"

text \<open>
  \<^verbatim>\<open>sorted(scores.items(), key=lambda x: x[1], reverse=True)\<close> is stable: items of equal
  score keep their order. So is \<open>sort_key\<close> on the negated score.
\<close>

definition reciprocal_rank_fusion ::
  "settings \<Rightarrow> candidate list \<Rightarrow> candidate list \<Rightarrow> int \<Rightarrow> error + candidate list"
where
  "reciprocal_rank_fusion cfg vector_results keyword_results k =
     (case fuse_vector cfg k 0 vector_results [] Map.empty of
        Inl e \<Rightarrow> Inl e
      | Inr (scores, chunk_map) \<Rightarrow>
          (case fuse_keyword cfg k 0 keyword_results scores chunk_map of
             Inl e \<Rightarrow> Inl e
           | Inr (scores, chunk_map) \<Rightarrow>
               (let ranked = sort_key (\<lambda>x. - snd x) scores
                in attach_rrf chunk_map ranked)))"

text \<open>
  The score of the specification (section 4.3): what the ranks at which an id stands in
  a list contribute, and the total over the two lists.
\<close>

definition contribution :: "rat \<Rightarrow> int \<Rightarrow> int list \<Rightarrow> int \<Rightarrow> rat" where
  "contribution weight k ids cid =
     sum_list (map (\<lambda>r. if ids ! r = cid then weight / of_int (k + int r + 1) else 0)
       [0 ..< length ids])"

definition rrf_total :: "settings \<Rightarrow> int \<Rightarrow> candidate list \<Rightarrow> candidate list \<Rightarrow> int \<Rightarrow> rat" where
  "rrf_total cfg k vector_results keyword_results cid =
     contribution (vector_weight cfg) k (map chunk_id vector_results) cid
     + contribution (keyword_weight cfg) k (map chunk_id keyword_results) cid"

section \<open>The world around the engine\<close>

text \<open>
  The collaborators are parameters of the model. A call of a collaborator either raises
  (\<open>Inl\<close>) or returns; what it returns depends on its arguments only.
  \<^item> \<open>embed_query\<close>, \<open>vector_search\<close>, \<open>keyword_search\<close>: the embedding service and the
    database.
  \<^item> \<open>predict\<close>: the cross-encoder, from the pairs to their scores.
  \<^item> \<open>cache_get\<close>, \<open>cache_setex\<close>: the Redis client, on a store of type \<open>'s\<close> holding
    payloads of type \<open>'p\<close>; a failed \<open>setex\<close> leaves the store as it was. \<open>cache_get\<close>
    answers \<open>None\<close> for an absent key (and for a payload Python takes for false, on which
    \<^verbatim>\<open>_check_cache\<close> returns \<^verbatim>\<open>None\<close> as well).
  \<^item> \<open>dumps\<close>, \<open>loads\<close>: \<^verbatim>\<open>json.dumps\<close> and \<^verbatim>\<open>json.loads\<close>.
  \<^item> \<open>sha256_hex\<close>: the hexadecimal SHA-256 digest.
  \<^item> \<open>monotonic\<close>: the successive readings of \<^verbatim>\<open>time.monotonic()\<close>.
\<close>

record response =
  query :: string
  results :: "candidate list"
  total_candidates :: int
  elapsed_ms :: int
  cached :: bool

text \<open>
  What \<^verbatim>\<open>json.loads\<close> can give back: a value Python takes for false (\<^verbatim>\<open>null\<close>, 0, an
  empty string, list or object), a true value that is not an object, or an object, read
  as a response.
\<close>

datatype cached_value = Falsy | NonDict | Dict response

record ('v, 'p, 's) env =
  config :: settings
  embed_query :: "string \<Rightarrow> error + 'v"
  vector_search :: "'v \<Rightarrow> int \<Rightarrow> error + candidate list"
  keyword_search :: "string \<Rightarrow> int \<Rightarrow> error + candidate list"
  predict :: "(string \<times> string) list \<Rightarrow> error + rat list"
  cache_get :: "'s \<Rightarrow> string \<Rightarrow> error + 'p option"
  cache_setex :: "'s \<Rightarrow> string \<Rightarrow> int \<Rightarrow> 'p \<Rightarrow> error + 's"
  dumps :: "response \<Rightarrow> error + 'p"
  loads :: "'p \<Rightarrow> error + cached_value"
  sha256_hex :: "string \<Rightarrow> string"
  monotonic :: "nat \<Rightarrow> rat"

text \<open>
  The mutable state: the dictionaries the candidate lists refer to (a list holds
  references, so a write through one reference is seen through every other), the cache
  store, the number of clock readings so far, and the calls made to the collaborators.
\<close>

type_synonym ref = nat

datatype event =
    EmbedQuery string
  | VectorSearch int
  | KeywordSearch string int
  | Predict "(string \<times> string) list"
  | CacheGet string
  | CacheSetex string int

record 's world =
  heap :: "ref \<Rightarrow> candidate"
  next_ref :: ref
  cache_store :: 's
  clock_reads :: nat
  trace :: "event list"

section \<open>Reranking: \<^verbatim>\<open>_rerank\<close>\<close>

text \<open>\<^verbatim>\<open>c.get("enriched_text") or c["chunk_text"]\<close>.\<close>

definition candidate_text :: "candidate \<Rightarrow> string" where
  "candidate_text c =
     (case enriched_text c of
        None \<Rightarrow> chunk_text c
      | Some t \<Rightarrow> if t \<noteq> [] then t else chunk_text c)"

text \<open>
  \<^verbatim>\<open>for c, s in zip(candidates, scores): c["rerank_score"] = round(float(s), 4)\<close>, a write
  into the dictionary each reference points to.
\<close>

fun attach_scores :: "(ref \<Rightarrow> candidate) \<Rightarrow> ref list \<Rightarrow> rat list \<Rightarrow> (ref \<Rightarrow> candidate)" where
  "attach_scores h (c # cs) (s # ss) =
     attach_scores (h(c := (h c)\<lparr>rerank_score := Some (py_round s 4)\<rparr>)) cs ss"
| "attach_scores h cs ss = h"

text \<open>
  \<^verbatim>\<open>candidates.sort(key=lambda x: x["rerank_score"], reverse=True)\<close>: a stable sort of the
  list itself; the key function raises on a dictionary without the key.
\<close>

definition rerank_key :: "(ref \<Rightarrow> candidate) \<Rightarrow> ref \<Rightarrow> rat" where
  "rerank_key h c = (case rerank_score (h c) of None \<Rightarrow> 0 | Some s \<Rightarrow> s)"

definition sort_candidates :: "(ref \<Rightarrow> candidate) \<Rightarrow> ref list \<Rightarrow> error + ref list" where
  "sort_candidates h cs =
     (if list_ex (\<lambda>c. rerank_score (h c) = None) cs then Inl KeyError
      else Inr (sort_key (\<lambda>c. - rerank_key h c) cs))"

text \<open>
  The result is the returned list, the content of the list that was passed after the
  call, and the world after the call.
\<close>

definition rerank ::
  "('v, 'p, 's) env \<Rightarrow> string \<Rightarrow> ref list \<Rightarrow> int \<Rightarrow> 's world
     \<Rightarrow> error + (ref list \<times> ref list \<times> 's world)"
where
  "rerank e qry candidates top_k w =
     (if candidates = [] then Inr ([], candidates, w)
      else
        (let pairs = map (\<lambda>c. (qry, candidate_text (heap w c))) candidates;
             w1 = w\<lparr>trace := trace w @ [Predict pairs]\<rparr>
         in case predict e pairs of
              Inl err \<Rightarrow> Inl err
            | Inr scores \<Rightarrow>
                (let h = attach_scores (heap w1) candidates scores
                 in case sort_candidates h candidates of
                      Inl err \<Rightarrow> Inl err
                    | Inr sorted_cs \<Rightarrow>
                        Inr (py_slice sorted_cs 0 top_k, sorted_cs, w1\<lparr>heap := h\<rparr>))))"

section \<open>Query cache: \<^verbatim>\<open>_cache_key\<close>, \<^verbatim>\<open>_check_cache\<close>, \<^verbatim>\<open>_set_cache\<close>\<close>

definition cache_key :: "('v, 'p, 's) env \<Rightarrow> string \<Rightarrow> string" where
  "cache_key e qry = ''rag:cache:'' @ take 16 (sha256_hex e qry)"

text \<open>Everything in the \<^verbatim>\<open>try\<close> block that raises ends in \<^verbatim>\<open>return None\<close>.\<close>

definition check_cache ::
  "('v, 'p, 's) env \<Rightarrow> string \<Rightarrow> 's world \<Rightarrow> cached_value option \<times> 's world"
where
  "check_cache e qry w =
     (let key = cache_key e qry;
          w1 = w\<lparr>trace := trace w @ [CacheGet key]\<rparr>
      in case cache_get e (cache_store w) key of
           Inl err \<Rightarrow> (None, w1)
         | Inr None \<Rightarrow> (None, w1)
         | Inr (Some payload) \<Rightarrow>
             (case loads e payload of
                Inl err \<Rightarrow> (None, w1)
              | Inr v \<Rightarrow> (Some v, w1)))"

text \<open>
  The payload is computed before \<^verbatim>\<open>setex\<close> is called; whatever raises in the \<^verbatim>\<open>try\<close>
  block is passed over.
\<close>

definition set_cache :: "('v, 'p, 's) env \<Rightarrow> string \<Rightarrow> response \<Rightarrow> 's world \<Rightarrow> 's world" where
  "set_cache e qry result w =
     (let key = cache_key e qry
      in case dumps e result of
           Inl err \<Rightarrow> w
         | Inr payload \<Rightarrow>
             (let w1 = w\<lparr>trace := trace w @ [CacheSetex key (cache_ttl_seconds (config e))]\<rparr>
              in case cache_setex e (cache_store w) key (cache_ttl_seconds (config e)) payload of
                   Inl err \<Rightarrow> w1
                 | Inr store \<Rightarrow> w1\<lparr>cache_store := store\<rparr>))"

section \<open>Retrieval: \<^verbatim>\<open>search\<close>\<close>

text \<open>\<^verbatim>\<open>int(x)\<close> on a float: towards zero.\<close>

definition py_int :: "rat \<Rightarrow> int" where
  "py_int x = (if 0 \<le> x then \<lfloor>x\<rfloor> else \<lceil>x\<rceil>)"

text \<open>
  The records of the fused list are the copies the fusion made (\<^verbatim>\<open>.copy()\<close>): new
  dictionaries, at references not used before.
\<close>

fun alloc_all :: "candidate list \<Rightarrow> 's world \<Rightarrow> ref list \<times> 's world" where
  "alloc_all [] w = ([], w)"
| "alloc_all (c # cs) w =
     (let r = next_ref w;
          (rs, w') = alloc_all cs (w\<lparr>heap := (heap w)(r := c), next_ref := Suc r\<rparr>)
      in (r # rs, w'))"

text \<open>
  Step 6 of \<^verbatim>\<open>search\<close>: the fused list cut to \<^verbatim>\<open>retrieval_top_k\<close> and reranked, or cut to
  \<^verbatim>\<open>top_k\<close> as it is.
\<close>

definition select_results ::
  "('v, 'p, 's) env \<Rightarrow> string \<Rightarrow> int \<Rightarrow> bool \<Rightarrow> candidate list \<Rightarrow> 's world
     \<Rightarrow> error + (candidate list \<times> 's world)"
where
  "select_results e qry top_k use_reranker fused w =
     (if use_reranker \<and> fused \<noteq> [] then
        (let (refs, w1) = alloc_all (py_slice fused 0 (retrieval_top_k (config e))) w
         in case rerank e qry refs top_k w1 of
              Inl err \<Rightarrow> Inl err
            | Inr (best, refs', w2) \<Rightarrow> Inr (map (heap w2) best, w2))
      else Inr (py_slice fused 0 top_k, w))"

text \<open>
  Steps 2 to 6 of \<^verbatim>\<open>search\<close> after a cache miss, up to the response record; \<open>t0\<close> is the
  first clock reading.
\<close>

definition retrieve ::
  "('v, 'p, 's) env \<Rightarrow> string \<Rightarrow> int \<Rightarrow> bool \<Rightarrow> rat \<Rightarrow> 's world \<Rightarrow> error + (response \<times> 's world)"
where
  "retrieve e qry top_k use_reranker t0 w =
     (let n = retrieval_top_k (config e)
      in case embed_query e qry of
           Inl err \<Rightarrow> Inl err
         | Inr query_vec \<Rightarrow>
      (case vector_search e query_vec n of
           Inl err \<Rightarrow> Inl err
         | Inr vector_results \<Rightarrow>
      (case keyword_search e qry n of
           Inl err \<Rightarrow> Inl err
         | Inr keyword_results \<Rightarrow>
      (case reciprocal_rank_fusion (config e) vector_results keyword_results (rrf_k (config e)) of
           Inl err \<Rightarrow> Inl err
         | Inr fused \<Rightarrow>
      (let w1 = w\<lparr>trace := trace w @ [EmbedQuery qry, VectorSearch n, KeywordSearch qry n]\<rparr>
       in case select_results e qry top_k use_reranker fused w1 of
            Inl err \<Rightarrow> Inl err
          | Inr (res, w2) \<Rightarrow>
              (let elapsed = py_int ((monotonic e (clock_reads w2) - t0) * 1000);
                   w3 = w2\<lparr>clock_reads := Suc (clock_reads w2)\<rparr>
               in Inr (\<lparr>query = qry, results = res, total_candidates = int (length fused),
                         elapsed_ms = elapsed, cached = False\<rparr>, w3)))))))"

text \<open>
  On a hit the stored response is returned with \<^verbatim>\<open>cached\<close> set. The assignment
  \<^verbatim>\<open>cached["cached"] = True\<close> is outside every \<^verbatim>\<open>try\<close>: it raises on a true value that is
  not an object. On a miss the response is computed, and stored when \<^verbatim>\<open>use_cache\<close> is set
  and the result list is not empty.
\<close>

definition search ::
  "('v, 'p, 's) env \<Rightarrow> string \<Rightarrow> int \<Rightarrow> bool \<Rightarrow> bool \<Rightarrow> 's world
     \<Rightarrow> error + (response \<times> 's world)"
where
  "search e qry top_k use_cache use_reranker w =
     (let t0 = monotonic e (clock_reads w);
          w1 = w\<lparr>clock_reads := Suc (clock_reads w)\<rparr>;
          (hit, w2) = (if use_cache then check_cache e qry w1 else (None, w1))
      in case hit of
           Some (Dict stored) \<Rightarrow> Inr (stored\<lparr>cached := True\<rparr>, w2)
         | Some NonDict \<Rightarrow> Inl TypeError
         | _ \<Rightarrow>
             (case retrieve e qry top_k use_reranker t0 w2 of
                Inl err \<Rightarrow> Inl err
              | Inr (resp, w3) \<Rightarrow>
                  Inr (resp, if use_cache \<and> results resp \<noteq> [] then set_cache e qry resp w3
                             else w3)))"

text \<open>The number a string of decimal digits denotes, to read a rendered index back.\<close>

definition dec_value :: "string \<Rightarrow> nat" where
  "dec_value s = foldl (\<lambda>acc c. 10 * acc + (of_char c - 48)) 0 s"

text \<open>\<^verbatim>\<open>scores.get(cid, 0.0)\<close>.\<close>

definition score_in :: "(int \<times> rat) list \<Rightarrow> int \<Rightarrow> rat" where
  "score_in scores cid = (case map_of scores cid of None \<Rightarrow> 0 | Some s \<Rightarrow> s)"

text \<open>The same contribution by recursion over the list, from a given rank on.\<close>

fun contribution_from :: "rat \<Rightarrow> int \<Rightarrow> nat \<Rightarrow> int list \<Rightarrow> int \<Rightarrow> rat" where
  "contribution_from weight k rank [] cid = 0"
| "contribution_from weight k rank (i # ids) cid =
     (if i = cid then weight / of_int (k + int rank + 1) else 0)
     + contribution_from weight k (Suc rank) ids cid"

text \<open>Every record of \<^verbatim>\<open>chunk_map\<close> is stored under its own id.\<close>

definition keyed :: "(int \<rightharpoonup> candidate) \<Rightarrow> bool" where
  "keyed chunk_map = (\<forall>cid item. chunk_map cid = Some item \<longrightarrow> chunk_id item = cid)"

text \<open>A search result with the given id and text, for the concrete runs below.\<close>

definition sample_chunk :: "int \<Rightarrow> string \<Rightarrow> candidate" where
  "sample_chunk cid txt =
     \<lparr>chunk_id = cid, chunk_text = txt, enriched_text = None, document_id = 1,
      document_title = ''doc'', distance = None, score = 1, rrf_score = None,
      rerank_score = None\<rparr>"

text \<open>
  A concrete environment for the runs below: two fixed result lists, a scorer that tells
  three texts apart, a cache kept as an association list, the stored payload being the
  response itself.
\<close>

definition sample_env :: "(unit, response, (string \<times> response) list) env" where
  "sample_env =
     \<lparr>config = default_settings,
      embed_query = (\<lambda>q. Inr ()),
      vector_search = (\<lambda>v n. Inr [sample_chunk 1 ''alpha'', sample_chunk 2 ''beta'']),
      keyword_search = (\<lambda>q n. Inr [sample_chunk 2 ''beta'', sample_chunk 3 ''gamma'']),
      predict = (\<lambda>pairs. Inr (map (\<lambda>(q, t). if t = ''beta'' then 12341 / 100000
                                            else if t = ''gamma'' then 1 / 2 else 12344 / 100000) pairs)),
      cache_get = (\<lambda>s k. Inr (map_of s k)),
      cache_setex = (\<lambda>s k ttl p. Inr ((k, p) # s)),
      dumps = Inr,
      loads = (\<lambda>p. Inr (Dict p)),
      sha256_hex = (\<lambda>q. q),
      monotonic = (\<lambda>n. of_nat n)\<rparr>"

text \<open>
  What a caller sees after \<^verbatim>\<open>_rerank\<close>: the returned list, the list it passed, and the
  \<^verbatim>\<open>rerank_score\<close> of each record it passed.
\<close>

definition rerank_view ::
  "('v, 'p, 's) env \<Rightarrow> string \<Rightarrow> ref list \<Rightarrow> int \<Rightarrow> 's world
     \<Rightarrow> error + (ref list \<times> ref list \<times> rat option list)"
where
  "rerank_view e qry candidates top_k w =
     (case rerank e qry candidates top_k w of
        Inl err \<Rightarrow> Inl err
      | Inr (best, after, w') \<Rightarrow>
          Inr (best, after, map (\<lambda>c. rerank_score (heap w' c)) candidates))"

text \<open>
  A state in which reference 0 holds the text \<^verbatim>\<open>beta\<close>, reference 2 the text \<^verbatim>\<open>gamma\<close>,
  and no record has a \<^verbatim>\<open>rerank_score\<close>.
\<close>

definition sample_world :: "(string \<times> response) list world" where
  "sample_world =
     \<lparr>heap = (\<lambda>r. sample_chunk (int r)
               (if r = 0 then ''beta'' else if r = 2 then ''gamma'' else ''other'')),
      next_ref = 10, cache_store = [],
      clock_reads = 0, trace = []\<rparr>"

text \<open>
  What is seen of a search from outside: the chunk ids of the results, the \<^verbatim>\<open>cached\<close> flag,
  and the calls made to the collaborators.
\<close>

definition search_view ::
  "('v, 'p, 's) env \<Rightarrow> string \<Rightarrow> int \<Rightarrow> bool \<Rightarrow> bool \<Rightarrow> 's world
     \<Rightarrow> error + (int list \<times> bool \<times> event list)"
where
  "search_view e qry top_k use_cache use_reranker w =
     map_sum id (\<lambda>(resp, w'). (map chunk_id (results resp), cached resp, trace w'))
       (search e qry top_k use_cache use_reranker w)"

text \<open>
  The sample environment with a cache backend that refuses every call.
\<close>

definition down_env :: "(unit, response, (string \<times> response) list) env" where
  "down_env =
     sample_env\<lparr>cache_get := \<lambda>s k. Inl (External ''connection refused''),
                cache_setex := \<lambda>s k ttl p. Inl (External ''connection refused'')\<rparr>"

text \<open>
  The sample environment with a corpus in which nothing matches.
\<close>

definition empty_env :: "(unit, response, (string \<times> response) list) env" where
  "empty_env = sample_env\<lparr>vector_search := \<lambda>v n. Inr [], keyword_search := \<lambda>q n. Inr []\<rparr>"

text \<open>
  Two states agree on everything the retrieval steps read: the records, the next free
  reference and the clock.
\<close>

definition same_mem :: "'s world \<Rightarrow> 's world \<Rightarrow> bool" where
  "same_mem w v = (heap w = heap v \<and> next_ref w = next_ref v \<and> clock_reads w = clock_reads v)"

(*VERIFICATION*)

chapter \<open>Verification\<close>

section \<open>Enricher\<close>

lemma of_char_digit_char: "d < 10 \<Longrightarrow> of_char (digit_char d) = 48 + d"
proof -
  assume "d < 10"
  then have "d \<in> {0, 1, 2, 3, 4, 5, 6, 7, 8, 9}" by auto
  then show ?thesis by (auto simp: digit_char_def)
qed

lemma dec_value_digits: "dec_value (digits n) = n"
proof (induction n rule: digits.induct)
  case (1 n)
  show ?case
  proof (cases "n < 10")
    case True
    then show ?thesis by (subst digits.simps) (simp add: dec_value_def of_char_digit_char)
  next
    case False
    with 1 have ih: "dec_value (digits (n div 10)) = n div 10" by simp
    have "n mod 10 < 10" by simp
    then have *: "of_char (digit_char (n mod 10)) = 48 + n mod 10"
      by (rule of_char_digit_char)
    show ?thesis using False ih
      by (subst digits.simps) (simp add: * dec_value_def)
  qed
qed

text \<open>
  C6, as the code has it. The enriched text is \<^verbatim>\<open>[prefix] chunk_text\<close>, the prefix being
  \<^verbatim>\<open>Documento: title\<close>, then \<^verbatim>\<open>Tipo: doc_type\<close> only when a type is given and is not the
  empty string, then \<^verbatim>\<open>Trecho n\<close>, joined by \<^verbatim>\<open> | \<close>; for a zero-based index the number
  \<open>n\<close> is the index plus one in decimal. The labels are the Portuguese ones of the code, not
  \<^verbatim>\<open>Document\<close>, \<^verbatim>\<open>Type\<close> and \<^verbatim>\<open>Segment\<close>.
\<close>

theorem enrich_chunk_format:
  "enrich_chunk segment doc_title chunk_index doc_type =
     ''[Documento: '' @ doc_title
       @ (case doc_type of None \<Rightarrow> [] | Some t \<Rightarrow> if t = [] then [] else '' | Tipo: '' @ t)
       @ '' | Trecho '' @ str_int (chunk_index + 1) @ ''] '' @ segment
   \<and> (0 \<le> chunk_index \<longrightarrow> dec_value (str_int (chunk_index + 1)) = nat chunk_index + 1)"
  by (cases doc_type) (simp_all add: enrich_chunk_def str_int_def dec_value_digits nat_add_distrib)

theorem enrich_chunk_format_witness:
  "enrich_chunk ''x'' ''T'' 11 (Some ''lei'') = ''[Documento: T | Tipo: lei | Trecho 12] x''
   \<and> dec_value (str_int (11 + 1)) = 12"
proof -
  have "str_int (11 + 1) = ''12''" by code_simp
  with enrich_chunk_format [where segment = "''x''" and doc_title = "''T''" and chunk_index = 11
      and doc_type = "Some ''lei''"]
  show ?thesis by simp
qed

text \<open>
  C6 as the specification words it fails on the first segment of a document titled \<^verbatim>\<open>T\<close>:
  the code writes \<^verbatim>\<open>Documento\<close> and \<^verbatim>\<open>Trecho\<close>.
\<close>

theorem enrich_labels_counterexample:
  "enrich_chunk ''x'' ''T'' 0 None = ''[Documento: T | Trecho 1] x'' \<and>
   enrich_spec ''x'' ''T'' 0 None = ''[Document: T | Segment 1] x'' \<and>
   enrich_chunk ''x'' ''T'' 0 None \<noteq> enrich_spec ''x'' ''T'' 0 None"
  by code_simp

section \<open>Chunker\<close>

text \<open>Three words separated by tabs: none of the configured separators occurs.\<close>

lemma tab_text_reaches_fallback:
  "find_separator [CHR ''a'', CHR 0x09, CHR ''b'', CHR 0x09, CHR ''c'']
     (chunk_separators default_settings) = Inr None"
  by code_simp

lemma word_windows_zero_step: "word_windows text csize csize = Inl ValueError"
  by (simp add: word_windows_def py_range_def)

lemma word_windows_negative_step: "csize < overlap \<Longrightarrow> word_windows text csize overlap = Inr []"
  by (simp add: word_windows_def py_range_def)

text \<open>
  C1 on the code. With \<^verbatim>\<open>overlap = chunk_size\<close> the step of the sliding window is 0 and
  \<^verbatim>\<open>range\<close> raises; with \<^verbatim>\<open>overlap > chunk_size\<close> the step is negative, the range is empty and
  the three words of the text are all lost. No minimum step is applied.
\<close>

theorem fallback_nonpositive_step:
  "split_text [CHR ''a'', CHR 0x09, CHR ''b'', CHR 0x09, CHR ''c''] 2 2
     (chunk_separators default_settings) = Inl ValueError \<and>
   split_text [CHR ''a'', CHR 0x09, CHR ''b'', CHR 0x09, CHR ''c''] 2 3
     (chunk_separators default_settings) = Inr [] \<and>
   split_ws [CHR ''a'', CHR 0x09, CHR ''b'', CHR 0x09, CHR ''c''] = [''a'', ''b'', ''c'']"
  by code_simp

text \<open>
  C2 on the code. Three lines of two words each, \<^verbatim>\<open>chunk_size = 3\<close>, \<^verbatim>\<open>overlap = 2\<close>: the
  second and third segments have four words, although every part the text was cut into has
  two. The overlap carried into a new segment is not counted against \<^verbatim>\<open>chunk_size\<close>.
\<close>

theorem overlap_exceeds_chunk_size:
  "split_text ''a b\<newline>c d\<newline>e f'' 3 2 (chunk_separators default_settings) =
     Inr [''a b'', ''a b\<newline>c d'', ''c d\<newline>e f''] \<and>
   map (\<lambda>p. length (split_ws p)) (split_sep ''\<newline>'' ''a b\<newline>c d\<newline>e f'') = [2, 2, 2] \<and>
   map (\<lambda>s. length (split_ws s)) [''a b'', ''a b\<newline>c d'', ''c d\<newline>e f''] = [2, 4, 4]"
  by code_simp

text \<open>
  A part that is itself longer than \<^verbatim>\<open>chunk_size\<close> is never cut again by a finer separator,
  although it holds one: the splitter is not recursive.
\<close>

lemma oversize_part_not_split_again:
  "split_text ''a b c d e\<newline>\<newline>f'' 2 0 (chunk_separators default_settings) =
     Inr [''a b c d e'', ''f'']"
  by code_simp

section \<open>Fusion\<close>

lemma sum_list_upt_Suc_shift:
  "sum_list (map f [0 ..< Suc n]) = f 0 + sum_list (map (\<lambda>i. f (Suc i)) [0 ..< n])"
proof -
  have "[0 ..< Suc n] = 0 # map Suc [0 ..< n]"
    by (simp add: upt_conv_Cons map_Suc_upt del: upt_Suc)
  then show ?thesis by (simp add: comp_def del: upt_Suc)
qed

lemma contribution_from_sum:
  "contribution_from weight k rank ids cid =
     sum_list (map (\<lambda>r. if ids ! r = cid then weight / of_int (k + int (rank + r) + 1) else 0)
       [0 ..< length ids])"
proof (induction ids arbitrary: rank)
  case Nil
  then show ?case by simp
next
  case (Cons i ids)
  show ?case
    by (simp only: length_Cons sum_list_upt_Suc_shift contribution_from.simps Cons.IH)
       (simp cong: if_cong)
qed

lemma contribution_eq_from: "contribution weight k ids cid = contribution_from weight k 0 ids cid"
  by (simp add: contribution_def contribution_from_sum cong: if_cong)

lemma keys_add_score:
  "map fst (add_score scores cid x) =
     (if cid \<in> fst ` set scores then map fst scores else map fst scores @ [cid])"
  by (induction scores cid x rule: add_score.induct) auto

lemma score_in_add_score:
  "score_in (add_score scores cid x) c =
     (if c = cid then score_in scores cid + x else score_in scores c)"
  by (induction scores cid x rule: add_score.induct) (auto simp: score_in_def)

lemma distinct_add_score:
  "distinct (map fst scores) \<Longrightarrow> distinct (map fst (add_score scores cid x))"
  by (simp add: keys_add_score)

lemma set_keys_add_score: "fst ` set (add_score scores cid x) = insert cid (fst ` set scores)"
proof -
  have "set (map fst (add_score scores cid x)) = insert cid (set (map fst scores))"
    by (simp only: keys_add_score) auto
  then show ?thesis by simp
qed

lemma fuse_vector_step:
  assumes "fuse_vector cfg k rank (r # rs) scores chunk_map = Inr res"
  shows "fuse_vector cfg k (Suc rank) rs
           (add_score scores (chunk_id r) (vector_weight cfg / of_int (k + int rank + 1)))
           (chunk_map(chunk_id r \<mapsto> r)) = Inr res"
  using assms by (simp add: Let_def rank_share_def split: sum.splits if_splits)

lemma fuse_keyword_step:
  assumes "fuse_keyword cfg k rank (r # rs) scores chunk_map = Inr res"
  shows "fuse_keyword cfg k (Suc rank) rs
           (add_score scores (chunk_id r) (keyword_weight cfg / of_int (k + int rank + 1)))
           (if chunk_map (chunk_id r) = None then chunk_map(chunk_id r \<mapsto> r) else chunk_map)
         = Inr res"
  using assms by (auto simp add: Let_def rank_share_def split: sum.splits if_splits)

lemma fuse_vector_inv:
  assumes "fuse_vector cfg k rank rs scores chunk_map = Inr (scores', chunk_map')"
  shows "fst ` set scores' = fst ` set scores \<union> chunk_id ` set rs"
    and "distinct (map fst scores) \<Longrightarrow> distinct (map fst scores')"
    and "score_in scores' c =
           score_in scores c + contribution_from (vector_weight cfg) k rank (map chunk_id rs) c"
    and "dom chunk_map' = dom chunk_map \<union> chunk_id ` set rs"
    and "keyed chunk_map \<Longrightarrow> keyed chunk_map'"
  using assms
proof (induction rs arbitrary: rank scores chunk_map)
  case Nil
  { case 1 then show ?case by simp }
  { case 2 then show ?case by simp }
  { case 3 then show ?case by simp }
  { case 4 then show ?case by simp }
  { case 5 then show ?case by simp }
next
  case (Cons r rs)
  { case 1
    from Cons.IH(1)[OF fuse_vector_step[OF 1]] show ?case by (simp add: set_keys_add_score) }
  { case 2
    from Cons.IH(2)[OF _ fuse_vector_step[OF 2(2)]] 2(1) show ?case by (simp add: distinct_add_score) }
  { case 3
    from Cons.IH(3)[OF fuse_vector_step[OF 3]] show ?case by (simp add: score_in_add_score) }
  { case 4
    from Cons.IH(4)[OF fuse_vector_step[OF 4]] show ?case by (auto split: if_splits) }
  { case 5
    from 5(1) have "keyed (chunk_map(chunk_id r \<mapsto> r))"
      by (auto simp: keyed_def)
    from Cons.IH(5)[OF this fuse_vector_step[OF 5(2)]] show ?case . }
qed

lemma fuse_keyword_inv:
  assumes "fuse_keyword cfg k rank rs scores chunk_map = Inr (scores', chunk_map')"
  shows "fst ` set scores' = fst ` set scores \<union> chunk_id ` set rs"
    and "distinct (map fst scores) \<Longrightarrow> distinct (map fst scores')"
    and "score_in scores' c =
           score_in scores c + contribution_from (keyword_weight cfg) k rank (map chunk_id rs) c"
    and "dom chunk_map' = dom chunk_map \<union> chunk_id ` set rs"
    and "keyed chunk_map \<Longrightarrow> keyed chunk_map'"
  using assms
proof (induction rs arbitrary: rank scores chunk_map)
  case Nil
  { case 1 then show ?case by simp }
  { case 2 then show ?case by simp }
  { case 3 then show ?case by simp }
  { case 4 then show ?case by simp }
  { case 5 then show ?case by simp }
next
  case (Cons r rs)
  { case 1
    from Cons.IH(1)[OF fuse_keyword_step[OF 1]] show ?case by (simp add: set_keys_add_score) }
  { case 2
    from Cons.IH(2)[OF _ fuse_keyword_step[OF 2(2)]] 2(1) show ?case by (simp add: distinct_add_score) }
  { case 3
    from Cons.IH(3)[OF fuse_keyword_step[OF 3]] show ?case by (simp add: score_in_add_score) }
  { case 4
    from Cons.IH(4)[OF fuse_keyword_step[OF 4]] show ?case by (auto split: if_splits) }
  { case 5
    from 5(1) have "keyed (if chunk_map (chunk_id r) = None then chunk_map(chunk_id r \<mapsto> r) else chunk_map)"
      by (auto simp: keyed_def)
    from Cons.IH(5)[OF this fuse_keyword_step[OF 5(2)]] show ?case . }
qed

lemma rank_share_defined: "0 \<le> k \<Longrightarrow> \<exists>x. rank_share weight k rank = Inr x"
  by (simp add: rank_share_def)

lemma fuse_vector_defined:
  "0 \<le> k \<Longrightarrow> \<exists>res. fuse_vector cfg k rank rs scores chunk_map = Inr res"
proof (induction rs arbitrary: rank scores chunk_map)
  case Nil
  then show ?case by simp
next
  case (Cons r rs)
  from rank_share_defined[OF Cons.prems] obtain x
    where "rank_share (vector_weight cfg) k rank = Inr x" by blast
  with Cons.IH[OF Cons.prems] show ?case by (simp add: Let_def)
qed

lemma fuse_keyword_defined:
  "0 \<le> k \<Longrightarrow> \<exists>res. fuse_keyword cfg k rank rs scores chunk_map = Inr res"
proof (induction rs arbitrary: rank scores chunk_map)
  case Nil
  then show ?case by simp
next
  case (Cons r rs)
  from rank_share_defined[OF Cons.prems] obtain x
    where "rank_share (keyword_weight cfg) k rank = Inr x" by blast
  with Cons.IH[OF Cons.prems] show ?case by (simp add: Let_def)
qed

lemma attach_rrf_result:
  assumes "fst ` set ranked \<subseteq> dom chunk_map" and "keyed chunk_map"
  shows "\<exists>out. attach_rrf chunk_map ranked = Inr out \<and>
           map (\<lambda>c. (chunk_id c, rrf_score c)) out =
             map (\<lambda>(cid, s). (cid, Some (py_round s 6))) ranked"
  using assms(1)
proof (induction ranked)
  case Nil
  then show ?case by simp
next
  case (Cons p ranked)
  obtain cid s where p: "p = (cid, s)" by (cases p)
  from Cons.prems p obtain item where item: "chunk_map cid = Some item" by auto
  with assms(2) have "chunk_id item = cid" by (simp add: keyed_def)
  moreover from Cons obtain out where "attach_rrf chunk_map ranked = Inr out"
    "map (\<lambda>c. (chunk_id c, rrf_score c)) out =
       map (\<lambda>(cid, s). (cid, Some (py_round s 6))) ranked" by auto
  ultimately show ?case using p item by simp
qed

lemma attach_rrf_shape:
  assumes "attach_rrf chunk_map ranked = Inr out" and "keyed chunk_map"
  shows "map (\<lambda>c. (chunk_id c, rrf_score c)) out =
           map (\<lambda>(cid, s). (cid, Some (py_round s 6))) ranked"
  using assms(1)
proof (induction ranked arbitrary: out)
  case Nil
  then show ?case by simp
next
  case (Cons p ranked)
  obtain cid s where p: "p = (cid, s)" by (cases p)
  from Cons.prems p obtain item rest where item: "chunk_map cid = Some item"
    and rest: "attach_rrf chunk_map ranked = Inr rest"
    and out: "out = item\<lparr>rrf_score := Some (py_round s 6)\<rparr> # rest"
    by (auto split: option.splits sum.splits)
  from item assms(2) have "chunk_id item = cid" by (simp add: keyed_def)
  with Cons.IH[OF rest] p out show ?case by simp
qed

lemma score_in_member:
  assumes "distinct (map fst scores)" and "(cid, s) \<in> set scores"
  shows "score_in scores cid = s"
  using assms by (simp add: score_in_def)

lemma fused_scores:
  assumes v: "fuse_vector cfg k 0 vs [] Map.empty = Inr (scores1, cm1)"
    and kw: "fuse_keyword cfg k 0 ks scores1 cm1 = Inr (scores2, cm2)"
  shows "fst ` set scores2 = chunk_id ` (set vs \<union> set ks)"
    and "distinct (map fst scores2)"
    and "dom cm2 = chunk_id ` (set vs \<union> set ks)"
    and "keyed cm2"
    and "(cid, s) \<in> set scores2 \<Longrightarrow> s = rrf_total cfg k vs ks cid"
proof -
  show keys: "fst ` set scores2 = chunk_id ` (set vs \<union> set ks)"
    using fuse_vector_inv(1)[OF v] fuse_keyword_inv(1)[OF kw] by auto
  show dist: "distinct (map fst scores2)"
    using fuse_keyword_inv(2)[OF kw] fuse_vector_inv(2)[OF v] by simp
  show "dom cm2 = chunk_id ` (set vs \<union> set ks)"
    using fuse_vector_inv(4)[OF v] fuse_keyword_inv(4)[OF kw] by auto
  have "keyed Map.empty" by (simp add: keyed_def)
  then show "keyed cm2"
    by (intro fuse_keyword_inv(5)[OF kw] fuse_vector_inv(5)[OF v])
  assume "(cid, s) \<in> set scores2"
  with dist have "s = score_in scores2 cid" by (simp add: score_in_member)
  also have "\<dots> = rrf_total cfg k vs ks cid"
  proof -
    have "score_in [] cid = 0" by (simp add: score_in_def)
    then show ?thesis
      unfolding rrf_total_def contribution_eq_from
      by (simp only: fuse_vector_inv(3)[OF v, of cid] fuse_keyword_inv(3)[OF kw, of cid])
  qed
  finally show "s = rrf_total cfg k vs ks cid" .
qed

lemma sorted_neg_iff: "sorted (map (\<lambda>x. - f x) xs) = sorted_wrt (\<ge>) (map (f :: 'a \<Rightarrow> rat) xs)"
  by (induction xs) auto

lemma distinct_keys_sort_key:
  "distinct (map fst (sort_key f xs)) = distinct (map fst xs)"
proof -
  have "mset (map fst (sort_key f xs)) = mset (map fst xs)" by simp
  then show ?thesis by (metis distinct_count_atmost_1 set_mset_mset)
qed

lemma rrf_fusion:
  assumes run: "reciprocal_rank_fusion cfg vs ks k = Inr out"
  shows "distinct (map chunk_id out)"
    and "set (map chunk_id out) = chunk_id ` (set vs \<union> set ks)"
    and "\<forall>c\<in>set out. rrf_score c = Some (py_round (rrf_total cfg k vs ks (chunk_id c)) 6)"
    and "sorted_wrt (\<ge>) (map (\<lambda>c. rrf_total cfg k vs ks (chunk_id c)) out)"
proof -
  from run obtain scores1 cm1 scores2 cm2
    where v: "fuse_vector cfg k 0 vs [] Map.empty = Inr (scores1, cm1)"
      and kw: "fuse_keyword cfg k 0 ks scores1 cm1 = Inr (scores2, cm2)"
      and att: "attach_rrf cm2 (sort_key (\<lambda>x. - snd x) scores2) = Inr out"
    by (auto simp: reciprocal_rank_fusion_def split: sum.splits prod.splits)
  let ?ranked = "sort_key (\<lambda>x. - snd x) scores2"
  note f = fused_scores[OF v kw]
  have shape: "map (\<lambda>c. (chunk_id c, rrf_score c)) out =
                 map (\<lambda>(cid, s). (cid, Some (py_round s 6))) ?ranked"
    by (rule attach_rrf_shape[OF att f(4)])
  have ids: "map chunk_id out = map fst ?ranked"
  proof -
    have "map chunk_id out = map fst (map (\<lambda>c. (chunk_id c, rrf_score c)) out)"
      by (simp add: comp_def)
    also have "\<dots> = map fst ?ranked"
      by (simp only: shape) (simp add: comp_def case_prod_unfold)
    finally show ?thesis .
  qed
  show "distinct (map chunk_id out)"
    by (simp only: ids distinct_keys_sort_key f(2))
  show "set (map chunk_id out) = chunk_id ` (set vs \<union> set ks)"
    using f(1) by (simp only: ids) simp
  have total: "s = rrf_total cfg k vs ks cid" if "(cid, s) \<in> set ?ranked" for cid s
    using that f(5) by simp
  show "\<forall>c\<in>set out. rrf_score c = Some (py_round (rrf_total cfg k vs ks (chunk_id c)) 6)"
  proof
    fix c assume "c \<in> set out"
    then have "(chunk_id c, rrf_score c) \<in> set (map (\<lambda>c. (chunk_id c, rrf_score c)) out)"
      by auto
    then obtain cid s where "(cid, s) \<in> set ?ranked" "chunk_id c = cid"
      "rrf_score c = Some (py_round s 6)"
      by (simp only: shape) auto
    with total show "rrf_score c = Some (py_round (rrf_total cfg k vs ks (chunk_id c)) 6)"
      by auto
  qed
  have "map (\<lambda>c. rrf_total cfg k vs ks (chunk_id c)) out
          = map (\<lambda>p. rrf_total cfg k vs ks (fst p)) ?ranked"
    using arg_cong[OF ids, of "map (rrf_total cfg k vs ks)"] by (simp add: comp_def)
  also have "\<dots> = map snd ?ranked"
    using total by (intro map_cong refl) (metis prod.collapse)
  finally have "map (\<lambda>c. rrf_total cfg k vs ks (chunk_id c)) out = map snd ?ranked" .
  moreover have "sorted (map (\<lambda>x. - snd x) ?ranked)" by (rule sorted_sort_key)
  ultimately show "sorted_wrt (\<ge>) (map (\<lambda>c. rrf_total cfg k vs ks (chunk_id c)) out)"
    by (simp add: sorted_neg_iff)
qed

lemma rrf_defined:
  assumes "0 \<le> k"
  shows "\<exists>out. reciprocal_rank_fusion cfg vs ks k = Inr out"
proof -
  from fuse_vector_defined[OF assms] obtain scores1 cm1
    where v: "fuse_vector cfg k 0 vs [] Map.empty = Inr (scores1, cm1)" by fastforce
  from fuse_keyword_defined[OF assms] obtain scores2 cm2
    where kw: "fuse_keyword cfg k 0 ks scores1 cm1 = Inr (scores2, cm2)" by fastforce
  note f = fused_scores[OF v kw]
  have "fst ` set (sort_key (\<lambda>x. - snd x) scores2) \<subseteq> dom cm2"
    using f(1) f(3) by simp
  from attach_rrf_result[OF this f(4)] v kw show ?thesis
    by (auto simp: reciprocal_rank_fusion_def)
qed




lemma sum_list_single_rank:
  assumes "i < n"
  shows "sum_list (map (\<lambda>r. if r = i then f r else (0::rat)) [0 ..< n]) = f i"
proof -
  have "sum_list (map (\<lambda>r. if r = i then f r else 0) [0 ..< n])
          = (\<Sum>r\<in>{0 ..< n}. if r = i then f r else 0)"
    by (simp add: interv_sum_list_conv_sum_set_nat)
  also have "\<dots> = f i" using assms by (simp add: sum.delta)
  finally show ?thesis .
qed

lemma contribution_at_rank:
  assumes "distinct ids" and "i < length ids"
  shows "contribution weight k ids (ids ! i) = weight / of_int (k + int i + 1)"
proof -
  have "map (\<lambda>r. if ids ! r = ids ! i then weight / of_int (k + int r + 1) else 0)
          [0 ..< length ids]
        = map (\<lambda>r. if r = i then weight / of_int (k + int r + 1) else 0) [0 ..< length ids]"
    using assms by (intro map_cong refl) (simp add: nth_eq_iff_index_eq)
  then show ?thesis
    by (simp only: contribution_def sum_list_single_rank[OF assms(2)])
qed

lemma contribution_absent:
  assumes "cid \<notin> set ids"
  shows "contribution weight k ids cid = 0"
proof -
  have "map (\<lambda>r. if ids ! r = cid then weight / of_int (k + int r + 1) else 0) [0 ..< length ids]
        = map (\<lambda>r. 0) [0 ..< length ids]"
    using assms by (intro map_cong refl) auto
  then have "contribution weight k ids cid = sum_list (map (\<lambda>r. 0) [0 ..< length ids])"
    by (simp only: contribution_def)
  then show ?thesis by simp
qed

lemma round_half_even_mono:
  assumes "x \<le> y"
  shows "round_half_even x \<le> round_half_even y"
proof (cases "\<lfloor>x\<rfloor> < \<lfloor>y\<rfloor>")
  case True
  have "round_half_even x \<le> \<lfloor>x\<rfloor> + 1" by (simp add: round_half_even_def Let_def)
  moreover have "\<lfloor>y\<rfloor> \<le> round_half_even y" by (simp add: round_half_even_def Let_def)
  ultimately show ?thesis using True by linarith
next
  case False
  with floor_mono[OF assms] have eq: "\<lfloor>x\<rfloor> = \<lfloor>y\<rfloor>" by linarith
  then have "x - of_int \<lfloor>x\<rfloor> \<le> y - of_int \<lfloor>y\<rfloor>" using assms by simp
  then show ?thesis
    by (auto simp: round_half_even_def Let_def eq)
qed

lemma py_round_mono: "x \<le> y \<Longrightarrow> py_round x n \<le> py_round y n"
  by (simp add: py_round_def divide_right_mono round_half_even_mono)

lemma rank_share_antimono:
  fixes weight :: rat
  assumes "0 \<le> weight" and "0 \<le> k" and "i \<le> j"
  shows "weight / of_int (k + int j + 1) \<le> weight / of_int (k + int i + 1)"
  using assms by (intro divide_left_mono) (auto intro!: mult_pos_pos)

lemma rrf_member_score:
  assumes run: "reciprocal_rank_fusion cfg vs ks k = Inr out"
    and mem: "cid \<in> chunk_id ` (set vs \<union> set ks)"
  shows "\<exists>c. c \<in> set out \<and> chunk_id c = cid
           \<and> rrf_score c = Some (py_round (rrf_total cfg k vs ks cid) 6)"
proof -
  from mem rrf_fusion(2)[OF run] have "cid \<in> chunk_id ` set out" by simp
  then obtain c where "c \<in> set out" "chunk_id c = cid" by blast
  with rrf_fusion(3)[OF run] show ?thesis by auto
qed

text \<open>
  C8. With equal non-negative weights, a non-negative smoothing constant and lists whose
  ids are distinct, a candidate standing in both lists at ranks at most \<open>r\<close> gets a total,
  and a rounded \<^verbatim>\<open>rrf_score\<close>, at least that of a candidate standing in one list only, at
  rank \<open>r\<close> or worse.
\<close>

theorem rrf_both_lists_dominate:
  assumes weights: "vector_weight cfg = keyword_weight cfg" "0 \<le> vector_weight cfg"
    and k: "0 \<le> k"
    and dist: "distinct (map chunk_id vs)" "distinct (map chunk_id ks)"
    and a_vec: "ra1 < length vs" "chunk_id (vs ! ra1) = a" "ra1 \<le> r"
    and a_key: "ra2 < length ks" "chunk_id (ks ! ra2) = a" "ra2 \<le> r"
    and b_rank: "r \<le> rb"
    and b_one: "(rb < length vs \<and> chunk_id (vs ! rb) = b \<and> b \<notin> chunk_id ` set ks)
              \<or> (rb < length ks \<and> chunk_id (ks ! rb) = b \<and> b \<notin> chunk_id ` set vs)"
  shows "\<exists>out ca cb sa sb.
           reciprocal_rank_fusion cfg vs ks k = Inr out
           \<and> ca \<in> set out \<and> chunk_id ca = a \<and> rrf_score ca = Some sa
           \<and> cb \<in> set out \<and> chunk_id cb = b \<and> rrf_score cb = Some sb
           \<and> sb \<le> sa
           \<and> rrf_total cfg k vs ks b \<le> rrf_total cfg k vs ks a"
proof -
  let ?w = "vector_weight cfg"
  let ?share = "\<lambda>i. ?w / of_int (k + int i + 1)"
  have share_nonneg: "0 \<le> ?share i" for i
    using weights(2) k by simp
  have a_total: "rrf_total cfg k vs ks a = ?share ra1 + ?share ra2"
  proof -
    have "contribution ?w k (map chunk_id vs) a = ?share ra1"
      using contribution_at_rank[OF dist(1), of ra1 ?w k] a_vec by simp
    moreover have "contribution ?w k (map chunk_id ks) a = ?share ra2"
      using contribution_at_rank[OF dist(2), of ra2 ?w k] a_key by simp
    ultimately show ?thesis by (simp add: rrf_total_def weights(1)[symmetric])
  qed
  have b_total: "rrf_total cfg k vs ks b = ?share rb"
    using b_one
  proof
    assume b: "rb < length vs \<and> chunk_id (vs ! rb) = b \<and> b \<notin> chunk_id ` set ks"
    then have "contribution ?w k (map chunk_id vs) b = ?share rb"
      using contribution_at_rank[OF dist(1), of rb ?w k] by simp
    moreover from b have "contribution ?w k (map chunk_id ks) b = 0"
      by (intro contribution_absent) simp
    ultimately show ?thesis by (simp add: rrf_total_def weights(1)[symmetric])
  next
    assume b: "rb < length ks \<and> chunk_id (ks ! rb) = b \<and> b \<notin> chunk_id ` set vs"
    then have "contribution ?w k (map chunk_id ks) b = ?share rb"
      using contribution_at_rank[OF dist(2), of rb ?w k] by simp
    moreover from b have "contribution ?w k (map chunk_id vs) b = 0"
      by (intro contribution_absent) simp
    ultimately show ?thesis by (simp add: rrf_total_def weights(1)[symmetric])
  qed
  have "?share rb \<le> ?share ra1"
    using rank_share_antimono[OF weights(2) k, of ra1 rb] a_vec(3) b_rank by simp
  also have "\<dots> \<le> ?share ra1 + ?share ra2"
    using share_nonneg[of ra2] by simp
  finally have le: "rrf_total cfg k vs ks b \<le> rrf_total cfg k vs ks a"
    by (simp only: a_total b_total)
  from rrf_defined[OF k] obtain out
    where run: "reciprocal_rank_fusion cfg vs ks k = Inr out" by blast
  have "a \<in> chunk_id ` (set vs \<union> set ks)"
    using a_vec(1,2) by (metis UnI1 imageI nth_mem)
  from rrf_member_score[OF run this] obtain ca
    where ca: "ca \<in> set out" "chunk_id ca = a"
      "rrf_score ca = Some (py_round (rrf_total cfg k vs ks a) 6)" by blast
  have "b \<in> chunk_id ` (set vs \<union> set ks)"
    using b_one by (metis UnI1 UnI2 imageI nth_mem)
  from rrf_member_score[OF run this] obtain cb
    where cb: "cb \<in> set out" "chunk_id cb = b"
      "rrf_score cb = Some (py_round (rrf_total cfg k vs ks b) 6)" by blast
  from py_round_mono[OF le]
  have "py_round (rrf_total cfg k vs ks b) 6 \<le> py_round (rrf_total cfg k vs ks a) 6" .
  with run ca cb le show ?thesis by blast
qed

theorem rrf_both_lists_dominate_witness:
  "\<exists>out ca cb sa sb.
     reciprocal_rank_fusion (default_settings\<lparr>keyword_weight := 7 / 10\<rparr>)
       [sample_chunk 1 ''a'', sample_chunk 2 ''b''] [sample_chunk 3 ''c'', sample_chunk 1 ''a'']
       60 = Inr out
     \<and> ca \<in> set out \<and> chunk_id ca = 1 \<and> rrf_score ca = Some sa
     \<and> cb \<in> set out \<and> chunk_id cb = 2 \<and> rrf_score cb = Some sb
     \<and> sb \<le> sa"
proof -
  let ?cfg = "default_settings\<lparr>keyword_weight := 7 / 10\<rparr>"
  let ?vs = "[sample_chunk 1 ''a'', sample_chunk 2 ''b'']"
  let ?ks = "[sample_chunk 3 ''c'', sample_chunk 1 ''a'']"
  have "\<exists>out ca cb sa sb.
           reciprocal_rank_fusion ?cfg ?vs ?ks 60 = Inr out
           \<and> ca \<in> set out \<and> chunk_id ca = 1 \<and> rrf_score ca = Some sa
           \<and> cb \<in> set out \<and> chunk_id cb = 2 \<and> rrf_score cb = Some sb
           \<and> sb \<le> sa
           \<and> rrf_total ?cfg 60 ?vs ?ks 2 \<le> rrf_total ?cfg 60 ?vs ?ks 1"
    by (rule rrf_both_lists_dominate[where ?ra1.0 = 0 and ?ra2.0 = 1 and r = 1 and rb = 1])
       (simp_all add: default_settings_def sample_chunk_def)
  then show ?thesis by blast
qed

section \<open>Reranking\<close>

lemma attach_scores_outside:
  "c \<notin> set cs \<Longrightarrow> attach_scores h cs ss c = h c"
  by (induction h cs ss rule: attach_scores.induct) auto

lemma attach_scores_at:
  assumes "distinct cs" and "length ss = length cs" and "i < length cs"
  shows "attach_scores h cs ss (cs ! i) = (h (cs ! i))\<lparr>rerank_score := Some (py_round (ss ! i) 4)\<rparr>"
  using assms
proof (induction h cs ss arbitrary: i rule: attach_scores.induct)
  case (1 h c cs s ss)
  show ?case
  proof (cases i)
    case 0
    with 1 show ?thesis by (simp add: attach_scores_outside)
  next
    case (Suc j)
    with 1 have j: "j < length cs" and neq: "cs ! j \<noteq> c"
      and d: "distinct cs" and l: "length ss = length cs" by auto
    let ?h = "h(c := (h c)\<lparr>rerank_score := Some (py_round s 4)\<rparr>)"
    have "attach_scores ?h cs ss (cs ! j) = (?h (cs ! j))\<lparr>rerank_score := Some (py_round (ss ! j) 4)\<rparr>"
      by (rule 1(1)[OF d l j])
    also have "?h (cs ! j) = h (cs ! j)" using neq by simp
    finally have "attach_scores ?h cs ss (cs ! j)
        = (h (cs ! j))\<lparr>rerank_score := Some (py_round (ss ! j) 4)\<rparr>" .
    then show ?thesis by (simp only: Suc attach_scores.simps nth_Cons_Suc)
  qed
qed simp_all

lemma attach_scores_scored:
  assumes "distinct cs" and "length ss = length cs" and "c \<in> set cs"
  shows "rerank_score (attach_scores h cs ss c) \<noteq> None"
proof -
  from assms(3) obtain i where "i < length cs" "cs ! i = c" by (auto simp: in_set_conv_nth)
  with attach_scores_at[OF assms(1,2), of i h] show ?thesis by auto
qed

lemma py_slice_prefix: "0 \<le> k \<Longrightarrow> py_slice xs 0 k = take (nat k) xs"
  by (auto simp: py_slice_def Let_def min_def)

lemma sorted_desc_sort_key:
  "sorted_wrt (\<ge>) (map (f :: 'a \<Rightarrow> rat) (sort_key (\<lambda>x. - f x) xs))"
proof -
  have "sorted (map (\<lambda>x. - f x) (sort_key (\<lambda>x. - f x) xs))" by (rule sorted_sort_key)
  then show ?thesis by (simp add: sorted_neg_iff)
qed

lemma stable_desc_sort_key:
  "filter (\<lambda>x. f x = v) (sort_key (\<lambda>x. - f x) xs) = filter (\<lambda>x. (f :: 'a \<Rightarrow> rat) x = v) xs"
  using sort_key_stable[of "\<lambda>x. - f x" "- v" xs] by simp

lemma rerank_run:
  assumes ne: "cands \<noteq> []" and dist: "distinct cands"
    and pred: "predict e (map (\<lambda>c. (qry, candidate_text (heap w c))) cands) = Inr scores"
    and len: "length scores = length cands"
  defines "h \<equiv> attach_scores (heap w) cands scores"
  shows "rerank e qry cands top_k w =
           Inr (py_slice (sort_key (\<lambda>c. - rerank_key h c) cands) 0 top_k,
                sort_key (\<lambda>c. - rerank_key h c) cands,
                w\<lparr>trace := trace w @ [Predict (map (\<lambda>c. (qry, candidate_text (heap w c))) cands)],
                  heap := h\<rparr>)"
proof -
  have "\<not> list_ex (\<lambda>c. rerank_score (h c) = None) cands"
    using attach_scores_scored[OF dist len] by (auto simp: list_ex_iff h_def)
  then have "sort_candidates h cands = Inr (sort_key (\<lambda>c. - rerank_key h c) cands)"
    by (simp add: sort_candidates_def)
  with ne pred show ?thesis
    by (simp add: rerank_def Let_def h_def)
qed

lemma set_py_slice: "set (py_slice xs a b) \<subseteq> set xs"
proof -
  have "set (take n (drop m xs)) \<subseteq> set xs" for n m
    using set_take_subset[of n "drop m xs"] set_drop_subset[of m xs] by blast
  then show ?thesis by (simp add: py_slice_def Let_def)
qed

lemma rerank_key_attached:
  assumes "distinct cs" and "length ss = length cs" and "i < length cs"
  shows "rerank_key (attach_scores h cs ss) (cs ! i) = py_round (ss ! i) 4"
  by (simp add: rerank_key_def attach_scores_at[OF assms])

text \<open>
  C9, as the code has it. On the empty list the call returns the empty list and the world
  is unchanged: the model is not invoked. On a non-empty list of distinct records, the
  model answering with one score per pair, the model is invoked once, on the pairs of the
  query with each candidate's enriched text when present and not empty and its raw text
  otherwise; each record gets the score of its pair rounded to four decimals; the list is
  sorted by this rounded score descending, records of equal rounded score keeping their
  prior order; and the result is the slice up to \<open>top_k\<close>, at most \<open>top_k\<close> records for
  a non-negative \<open>top_k\<close>.
\<close>

theorem rerank_contract:
  "rerank e qry [] top_k w = Inr ([], [], w)
   \<and> (cands \<noteq> [] \<and> distinct cands
        \<and> predict e (map (\<lambda>c. (qry, candidate_text (heap w c))) cands) = Inr scores
        \<and> length scores = length cands \<longrightarrow>
      (\<exists>best cands' w'.
         rerank e qry cands top_k w = Inr (best, cands', w')
         \<and> trace w' = trace w @ [Predict (map (\<lambda>c. (qry, candidate_text (heap w c))) cands)]
         \<and> (\<forall>i<length cands.
               rerank_score (heap w' (cands ! i)) = Some (py_round (scores ! i) 4))
         \<and> mset cands' = mset cands
         \<and> sorted_wrt (\<ge>) (map (rerank_key (heap w')) cands')
         \<and> (\<forall>v. filter (\<lambda>c. rerank_key (heap w') c = v) cands'
                   = filter (\<lambda>c. rerank_key (heap w') c = v) cands)
         \<and> best = py_slice cands' 0 top_k
         \<and> (0 \<le> top_k \<longrightarrow> best = take (nat top_k) cands' \<and> int (length best) \<le> top_k)))
   \<and> (\<forall>c t. enriched_text c = Some t \<and> t \<noteq> [] \<longrightarrow> candidate_text c = t)
   \<and> (\<forall>c. enriched_text c = None \<or> enriched_text c = Some [] \<longrightarrow> candidate_text c = chunk_text c)"
proof (intro conjI impI)
  show "rerank e qry [] top_k w = Inr ([], [], w)" by (simp add: rerank_def)
next
  assume a: "cands \<noteq> [] \<and> distinct cands
        \<and> predict e (map (\<lambda>c. (qry, candidate_text (heap w c))) cands) = Inr scores
        \<and> length scores = length cands"
  define h where "h = attach_scores (heap w) cands scores"
  define after where "after = sort_key (\<lambda>c. - rerank_key h c) cands"
  define w' where "w' = w\<lparr>trace := trace w @ [Predict (map (\<lambda>c. (qry, candidate_text (heap w c))) cands)],
                        heap := h\<rparr>"
  from a have dist: "distinct cands" and len: "length scores = length cands" by simp_all
  have run: "rerank e qry cands top_k w = Inr (py_slice after 0 top_k, after, w')"
    using rerank_run[of cands e qry w scores top_k] a by (simp add: h_def after_def w'_def)
  have hw: "heap w' = h" by (simp add: w'_def)
  have "trace w' = trace w @ [Predict (map (\<lambda>c. (qry, candidate_text (heap w c))) cands)]"
    by (simp add: w'_def)
  moreover have "\<forall>i<length cands.
      rerank_score (heap w' (cands ! i)) = Some (py_round (scores ! i) 4)"
    by (simp add: hw h_def attach_scores_at[OF dist len])
  moreover have "mset after = mset cands" by (simp add: after_def)
  moreover have "sorted_wrt (\<ge>) (map (rerank_key (heap w')) after)"
    unfolding hw after_def by (rule sorted_desc_sort_key)
  moreover have "\<forall>v. filter (\<lambda>c. rerank_key (heap w') c = v) after
                      = filter (\<lambda>c. rerank_key (heap w') c = v) cands"
    unfolding hw after_def by (simp add: stable_desc_sort_key)
  moreover have "0 \<le> top_k \<longrightarrow>
      py_slice after 0 top_k = take (nat top_k) after \<and> int (length (py_slice after 0 top_k)) \<le> top_k"
    by (auto simp: py_slice_prefix)
  ultimately show "\<exists>best cands' w'.
         rerank e qry cands top_k w = Inr (best, cands', w')
         \<and> trace w' = trace w @ [Predict (map (\<lambda>c. (qry, candidate_text (heap w c))) cands)]
         \<and> (\<forall>i<length cands.
               rerank_score (heap w' (cands ! i)) = Some (py_round (scores ! i) 4))
         \<and> mset cands' = mset cands
         \<and> sorted_wrt (\<ge>) (map (rerank_key (heap w')) cands')
         \<and> (\<forall>v. filter (\<lambda>c. rerank_key (heap w') c = v) cands'
                   = filter (\<lambda>c. rerank_key (heap w') c = v) cands)
         \<and> best = py_slice cands' 0 top_k
         \<and> (0 \<le> top_k \<longrightarrow> best = take (nat top_k) cands' \<and> int (length best) \<le> top_k)"
    using run by blast
next
  show "\<forall>c t. enriched_text c = Some t \<and> t \<noteq> [] \<longrightarrow> candidate_text c = t"
    by (simp add: candidate_text_def)
next
  show "\<forall>c. enriched_text c = None \<or> enriched_text c = Some [] \<longrightarrow> candidate_text c = chunk_text c"
    by (auto simp: candidate_text_def)
qed

text \<open>
  C10. On a non-empty list of distinct records, the model answering with one score per
  pair, every record of the list passed has its \<^verbatim>\<open>rerank_score\<close> written, whatever
  \<open>top_k\<close> is, and is otherwise as before; no other record changes; the list passed is
  itself permuted into descending order of the score; the returned list refers to the same
  records. So the heap differs from the one before the call as soon as one record had no
  score, and the list passed differs as soon as it was not in that order.
\<close>

theorem rerank_mutates_input:
  assumes "cands \<noteq> []" and "distinct cands"
    and "predict e (map (\<lambda>c. (qry, candidate_text (heap w c))) cands) = Inr scores"
    and "length scores = length cands"
  shows "\<exists>best cands' w'.
           rerank e qry cands top_k w = Inr (best, cands', w')
           \<and> (\<forall>i<length cands.
                 heap w' (cands ! i) =
                   (heap w (cands ! i))\<lparr>rerank_score := Some (py_round (scores ! i) 4)\<rparr>)
           \<and> (\<forall>c. c \<notin> set cands \<longrightarrow> heap w' c = heap w c)
           \<and> mset cands' = mset cands
           \<and> sorted_wrt (\<ge>) (map (rerank_key (heap w')) cands')
           \<and> set best \<subseteq> set cands
           \<and> ((\<exists>c\<in>set cands. rerank_score (heap w c) = None) \<longrightarrow> heap w' \<noteq> heap w)
           \<and> (\<not> sorted_wrt (\<ge>) (map (rerank_key (heap w')) cands) \<longrightarrow> cands' \<noteq> cands)"
proof -
  define h where "h = attach_scores (heap w) cands scores"
  define after where "after = sort_key (\<lambda>c. - rerank_key h c) cands"
  define w' where "w' = w\<lparr>trace := trace w @ [Predict (map (\<lambda>c. (qry, candidate_text (heap w c))) cands)],
                        heap := h\<rparr>"
  note dist = assms(2) and len = assms(4)
  have run: "rerank e qry cands top_k w = Inr (py_slice after 0 top_k, after, w')"
    using rerank_run[OF assms, of top_k] by (simp add: h_def after_def w'_def)
  have hw: "heap w' = h" by (simp add: w'_def)
  have written: "\<forall>i<length cands.
      heap w' (cands ! i) = (heap w (cands ! i))\<lparr>rerank_score := Some (py_round (scores ! i) 4)\<rparr>"
    by (simp add: hw h_def attach_scores_at[OF dist len])
  have frame: "\<forall>c. c \<notin> set cands \<longrightarrow> heap w' c = heap w c"
    by (simp add: hw h_def attach_scores_outside)
  have perm: "mset after = mset cands" by (simp add: after_def)
  have sorted: "sorted_wrt (\<ge>) (map (rerank_key (heap w')) after)"
    unfolding hw after_def by (rule sorted_desc_sort_key)
  have sub: "set (py_slice after 0 top_k) \<subseteq> set cands"
    using set_py_slice[of after 0 top_k] by (simp add: after_def)
  have changed: "(\<exists>c\<in>set cands. rerank_score (heap w c) = None) \<longrightarrow> heap w' \<noteq> heap w"
  proof
    assume "\<exists>c\<in>set cands. rerank_score (heap w c) = None"
    then obtain c where c: "c \<in> set cands" "rerank_score (heap w c) = None" by blast
    have "rerank_score (heap w' c) \<noteq> None"
      unfolding hw h_def by (rule attach_scores_scored[OF dist len c(1)])
    with c(2) show "heap w' \<noteq> heap w" by auto
  qed
  have moved: "\<not> sorted_wrt (\<ge>) (map (rerank_key (heap w')) cands) \<longrightarrow> after \<noteq> cands"
    using sorted by auto
  show ?thesis
    by (rule exI[of _ "py_slice after 0 top_k"], rule exI[of _ after], rule exI[of _ w'])
       (intro conjI run written frame perm sorted sub changed moved)
qed

lemma sample_scores:
  "[0, 1, 2] \<noteq> [] \<and> distinct [0, 1, 2 :: ref]
   \<and> predict sample_env (map (\<lambda>c. (''q'', candidate_text (heap sample_world c))) [0, 1, 2])
       = Inr [12341 / 100000, 12344 / 100000, 1 / 2]
   \<and> length [12341 / 100000, 12344 / 100000, 1 / 2 :: rat] = length [0, 1, 2 :: ref]"
  by (simp add: sample_env_def sample_world_def candidate_text_def sample_chunk_def)

theorem rerank_contract_witness:
  "rerank sample_env ''q'' [] 2 sample_world = Inr ([], [], sample_world)
   \<and> (\<exists>best cands' w'.
         rerank sample_env ''q'' [0, 1, 2] 2 sample_world = Inr (best, cands', w')
         \<and> trace w' = trace sample_world
              @ [Predict (map (\<lambda>c. (''q'', candidate_text (heap sample_world c))) [0, 1, 2])]
         \<and> mset cands' = mset [0, 1, 2]
         \<and> sorted_wrt (\<ge>) (map (rerank_key (heap w')) cands')
         \<and> best = take 2 cands' \<and> int (length best) \<le> 2)"
  using rerank_contract[where e = sample_env and qry = "''q''" and top_k = 2 and w = sample_world
      and cands = "[0, 1, 2]" and scores = "[12341 / 100000, 12344 / 100000, 1 / 2]"]
    sample_scores
  by (simp only: rel_simps simp_thms nat_numeral) blast

text \<open>
  C9 as stated fails: the scorer gives 0.12341 to record 0 and 0.12344 to record 1; both
  are stored as 0.1234, the sort keeps record 0 before record 1, and with \<open>top_k = 2\<close> the
  call returns records 2 and 0, not 2 and 1.
\<close>

theorem rerank_rounded_ties_counterexample:
  "rerank_view sample_env ''q'' [0, 1, 2] 2 sample_world =
     Inr ([2, 0], [2, 0, 1], [Some (1234 / 10000), Some (1234 / 10000), Some (1 / 2)]) \<and>
   predict sample_env (map (\<lambda>c. (''q'', candidate_text (heap sample_world c))) [0, 1, 2])
     = Inr [12341 / 100000, 12344 / 100000, 1 / 2] \<and>
   (12341 / 100000 :: rat) < 12344 / 100000"
  by code_simp

theorem rerank_mutates_input_witness:
  "\<exists>best cands' w'.
     rerank sample_env ''q'' [0, 1, 2] 1 sample_world = Inr (best, cands', w')
     \<and> heap w' 0 = (heap sample_world 0)\<lparr>rerank_score := Some (py_round (12341 / 100000) 4)\<rparr>
     \<and> heap w' 1 = (heap sample_world 1)\<lparr>rerank_score := Some (py_round (12344 / 100000) 4)\<rparr>
     \<and> heap w' 2 = (heap sample_world 2)\<lparr>rerank_score := Some (py_round (1 / 2) 4)\<rparr>
     \<and> heap w' 3 = heap sample_world 3
     \<and> mset cands' = mset [0, 1, 2]
     \<and> heap w' \<noteq> heap sample_world"
proof -
  note s = sample_scores
  from rerank_mutates_input[where e = sample_env and qry = "''q''" and top_k = 1
      and w = sample_world and cands = "[0, 1, 2]"
      and scores = "[12341 / 100000, 12344 / 100000, 1 / 2]"] s
  obtain best cands' w' where run: "rerank sample_env ''q'' [0, 1, 2] 1 sample_world = Inr (best, cands', w')"
    and written: "\<forall>i<length [0, 1, 2 :: ref]. heap w' ([0, 1, 2] ! i) =
        (heap sample_world ([0, 1, 2] ! i))
          \<lparr>rerank_score := Some (py_round ([12341 / 100000, 12344 / 100000, 1 / 2] ! i) 4)\<rparr>"
    and frame: "\<forall>c. c \<notin> set [0, 1, 2 :: ref] \<longrightarrow> heap w' c = heap sample_world c"
    and perm: "mset cands' = mset [0, 1, 2]"
    and changed: "(\<exists>c\<in>set [0, 1, 2 :: ref]. rerank_score (heap sample_world c) = None)
                    \<longrightarrow> heap w' \<noteq> heap sample_world"
    by blast
  have "rerank_score (heap sample_world 0) = None"
    by (simp add: sample_world_def sample_chunk_def)
  with changed have "heap w' \<noteq> heap sample_world" by auto
  moreover from written[rule_format, of 0] written[rule_format, of 1] written[rule_format, of 2]
  have "heap w' 0 = (heap sample_world 0)\<lparr>rerank_score := Some (py_round (12341 / 100000) 4)\<rparr>"
    "heap w' 1 = (heap sample_world 1)\<lparr>rerank_score := Some (py_round (12344 / 100000) 4)\<rparr>"
    "heap w' 2 = (heap sample_world 2)\<lparr>rerank_score := Some (py_round (1 / 2) 4)\<rparr>"
    by simp_all
  moreover from frame have "heap w' 3 = heap sample_world 3" by simp
  ultimately show ?thesis using run perm by blast
qed

section \<open>Query cache and retrieval\<close>

lemma alloc_all_frame:
  assumes "alloc_all cs w = (refs, w')"
  shows "cache_store w' = cache_store w" and "trace w' = trace w"
    and "clock_reads w' = clock_reads w"
  using assms
  by (induction cs arbitrary: w refs w') (auto simp: Let_def split: prod.splits)

lemma alloc_all_same:
  assumes "same_mem w v" and "alloc_all cs w = (refs, w')" and "alloc_all cs v = (refs2, v')"
  shows "refs = refs2 \<and> same_mem w' v'"
  using assms
proof (induction cs arbitrary: w v refs refs2 w' v')
  case Nil
  then show ?case by simp
next
  case (Cons c cs)
  let ?w = "w\<lparr>heap := (heap w)(next_ref w := c), next_ref := Suc (next_ref w)\<rparr>"
  let ?v = "v\<lparr>heap := (heap v)(next_ref v := c), next_ref := Suc (next_ref v)\<rparr>"
  obtain rs w1 where a1: "alloc_all cs ?w = (rs, w1)" by (cases "alloc_all cs ?w")
  obtain rs2 v1 where a2: "alloc_all cs ?v = (rs2, v1)" by (cases "alloc_all cs ?v")
  from Cons.prems(1) have "same_mem ?w ?v" by (simp add: same_mem_def)
  from Cons.IH[OF this a1 a2] have "rs = rs2 \<and> same_mem w1 v1" .
  moreover from Cons.prems(2) a1 have "refs = next_ref w # rs" "w' = w1" by (simp_all add: Let_def)
  moreover from Cons.prems(3) a2 have "refs2 = next_ref v # rs2" "v' = v1" by (simp_all add: Let_def)
  ultimately show ?case using Cons.prems(1) by (simp add: same_mem_def)
qed

lemma rerank_frame:
  assumes "rerank e qry cands top_k w = Inr (best, after, w')"
  shows "cache_store w' = cache_store w" and "clock_reads w' = clock_reads w"
    and "\<exists>evs. trace w' = trace w @ evs \<and> (\<forall>key ttl. CacheSetex key ttl \<notin> set evs)"
  using assms
  by (auto simp: rerank_def Let_def split: if_splits sum.splits)

lemma rerank_same:
  assumes "same_mem w v"
  shows "rel_sum (=) (\<lambda>(b, a, w') (b2, a2, v'). b = b2 \<and> a = a2 \<and> same_mem w' v')
           (rerank e qry cands top_k w) (rerank e qry cands top_k v)"
  using assms
  by (auto simp: rerank_def Let_def same_mem_def split: sum.splits)

lemma select_results_frame:
  assumes "select_results e qry top_k use_reranker fused w = Inr (res, w')"
  shows "cache_store w' = cache_store w" and "clock_reads w' = clock_reads w"
    and "\<exists>evs. trace w' = trace w @ evs \<and> (\<forall>key ttl. CacheSetex key ttl \<notin> set evs)"
proof -
  have "cache_store w' = cache_store w \<and> clock_reads w' = clock_reads w
      \<and> (\<exists>evs. trace w' = trace w @ evs \<and> (\<forall>key ttl. CacheSetex key ttl \<notin> set evs))"
  proof (cases "use_reranker \<and> fused \<noteq> []")
    case True
    let ?cs = "py_slice fused 0 (retrieval_top_k (config e))"
    obtain refs w1 where al: "alloc_all ?cs w = (refs, w1)" by (cases "alloc_all ?cs w")
    with assms True obtain best refs' where rr: "rerank e qry refs top_k w1 = Inr (best, refs', w')"
      by (auto simp: select_results_def split: sum.splits)
    from alloc_all_frame[OF al] rerank_frame[OF rr] show ?thesis by auto
  next
    case False
    with assms show ?thesis by (auto simp: select_results_def)
  qed
  then show "cache_store w' = cache_store w" and "clock_reads w' = clock_reads w"
    and "\<exists>evs. trace w' = trace w @ evs \<and> (\<forall>key ttl. CacheSetex key ttl \<notin> set evs)"
    by auto
qed

lemma select_results_same:
  assumes "same_mem w v"
  shows "rel_sum (=) (\<lambda>(res, w') (res2, v'). res = res2 \<and> same_mem w' v')
           (select_results e qry top_k use_reranker fused w)
           (select_results e qry top_k use_reranker fused v)"
proof (cases "use_reranker \<and> fused \<noteq> []")
  case True
  let ?cs = "py_slice fused 0 (retrieval_top_k (config e))"
  obtain refs w1 where a1: "alloc_all ?cs w = (refs, w1)" by (cases "alloc_all ?cs w")
  obtain refs2 v1 where a2: "alloc_all ?cs v = (refs2, v1)" by (cases "alloc_all ?cs v")
  from alloc_all_same[OF assms a1 a2] have eq: "refs = refs2" and sm: "same_mem w1 v1" by simp_all
  from rerank_same[OF sm, of e qry refs top_k] True a1 a2 eq show ?thesis
    by (auto simp: select_results_def same_mem_def split: sum.splits)
next
  case False
  with assms show ?thesis by (auto simp: select_results_def)
qed

lemma retrieve_frame:
  assumes "retrieve e qry top_k use_reranker t0 w = Inr (resp, w')"
  shows "cache_store w' = cache_store w"
    and "\<exists>evs. trace w' = trace w @ evs \<and> (\<forall>key ttl. CacheSetex key ttl \<notin> set evs)"
    and "cached resp = False"
proof -
  let ?n = "retrieval_top_k (config e)"
  let ?w1 = "w\<lparr>trace := trace w @ [EmbedQuery qry, VectorSearch ?n, KeywordSearch qry ?n]\<rparr>"
  from assms obtain fused res w2
    where sel: "select_results e qry top_k use_reranker fused ?w1 = Inr (res, w2)"
      and w': "w' = w2\<lparr>clock_reads := Suc (clock_reads w2)\<rparr>"
      and resp: "resp = \<lparr>query = qry, results = res, total_candidates = int (length fused),
                         elapsed_ms = py_int ((monotonic e (clock_reads w2) - t0) * 1000),
                         cached = False\<rparr>"
    by (auto simp: retrieve_def Let_def split: sum.splits)
  from select_results_frame[OF sel] w'
  show "cache_store w' = cache_store w"
    and "\<exists>evs. trace w' = trace w @ evs \<and> (\<forall>key ttl. CacheSetex key ttl \<notin> set evs)"
    by auto
  from resp show "cached resp = False" by simp
qed

lemma retrieve_same:
  assumes "same_mem w v"
  shows "map_sum id fst (retrieve e qry top_k use_reranker t0 w)
       = map_sum id fst (retrieve e qry top_k use_reranker t0 v)"
proof -
  let ?n = "retrieval_top_k (config e)"
  let ?evs = "[EmbedQuery qry, VectorSearch ?n, KeywordSearch qry ?n]"
  have sm: "same_mem (w\<lparr>trace := trace w @ ?evs\<rparr>) (v\<lparr>trace := trace v @ ?evs\<rparr>)"
    using assms by (simp add: same_mem_def)
  show ?thesis
  proof (cases "embed_query e qry")
    case (Inl err)
    then show ?thesis by (simp add: retrieve_def Let_def)
  next
    case e1: (Inr query_vec)
    show ?thesis
    proof (cases "vector_search e query_vec ?n")
      case (Inl err)
      with e1 show ?thesis by (simp add: retrieve_def Let_def)
    next
      case e2: (Inr vector_results)
      show ?thesis
      proof (cases "keyword_search e qry ?n")
        case (Inl err)
        with e1 e2 show ?thesis by (simp add: retrieve_def Let_def)
      next
        case e3: (Inr keyword_results)
        show ?thesis
        proof (cases "reciprocal_rank_fusion (config e) vector_results keyword_results
                        (rrf_k (config e))")
          case (Inl err)
          with e1 e2 e3 show ?thesis by (simp add: retrieve_def Let_def)
        next
          case e4: (Inr fused)
          from select_results_same[OF sm, of e qry top_k use_reranker fused] e1 e2 e3 e4
          show ?thesis
            by (auto simp: retrieve_def Let_def same_mem_def split: sum.splits)
        qed
      qed
    qed
  qed
qed

lemma rerank_ignores_cache:
  "rerank (e\<lparr>cache_get := g\<rparr>) = rerank e" "rerank (e\<lparr>cache_setex := f\<rparr>) = rerank e"
  by (intro ext, simp add: rerank_def)+

lemma select_results_ignores_cache:
  "select_results (e\<lparr>cache_get := g\<rparr>) = select_results e"
  "select_results (e\<lparr>cache_setex := f\<rparr>) = select_results e"
  by (intro ext, simp add: select_results_def rerank_ignores_cache)+

lemma retrieve_ignores_cache:
  "retrieve (e\<lparr>cache_get := g\<rparr>) = retrieve e" "retrieve (e\<lparr>cache_setex := f\<rparr>) = retrieve e"
  by (intro ext, simp add: retrieve_def select_results_ignores_cache Let_def
        cong: sum.case_cong if_cong prod.case_cong)+

lemma cache_key_ignores_cache [simp]:
  "cache_key (e\<lparr>cache_get := g\<rparr>) qry = cache_key e qry"
  "cache_key (e\<lparr>cache_setex := f\<rparr>) qry = cache_key e qry"
  by (simp_all add: cache_key_def)

lemma check_cache_world:
  "snd (check_cache e qry w) = w\<lparr>trace := trace w @ [CacheGet (cache_key e qry)]\<rparr>"
  by (simp add: check_cache_def Let_def split: sum.splits option.splits)

lemma check_cache_read_failure:
  assumes "(\<exists>err. cache_get e (cache_store w) (cache_key e qry) = Inl err)
         \<or> (\<exists>p err. cache_get e (cache_store w) (cache_key e qry) = Inr (Some p)
                      \<and> loads e p = Inl err)"
  shows "check_cache e qry w = (None, w\<lparr>trace := trace w @ [CacheGet (cache_key e qry)]\<rparr>)"
  using assms by (auto simp: check_cache_def Let_def)

lemma check_cache_miss:
  "check_cache (e\<lparr>cache_get := \<lambda>s k. Inr None\<rparr>) qry w
     = (None, w\<lparr>trace := trace w @ [CacheGet (cache_key e qry)]\<rparr>)"
  by (simp add: check_cache_def Let_def)

lemma check_cache_ignores_setex: "check_cache (e\<lparr>cache_setex := f\<rparr>) = check_cache e"
  by (intro ext) (simp add: check_cache_def Let_def cong: sum.case_cong option.case_cong)

lemma set_cache_ignores_get: "set_cache (e\<lparr>cache_get := g\<rparr>) = set_cache e"
  by (intro ext) (simp add: set_cache_def Let_def cong: sum.case_cong)

lemma set_cache_write_failure:
  assumes "(\<forall>p. \<exists>err. cache_setex e (cache_store w) (cache_key e qry)
                         (cache_ttl_seconds (config e)) p = Inl err)
         \<or> (\<forall>r. \<exists>err. dumps e r = Inl err)"
  shows "set_cache e qry resp w = set_cache (e\<lparr>cache_setex := \<lambda>s k ttl p. Inr s\<rparr>) qry resp w"
    and "cache_store (set_cache e qry resp w) = cache_store w"
proof -
  show "set_cache e qry resp w = set_cache (e\<lparr>cache_setex := \<lambda>s k ttl p. Inr s\<rparr>) qry resp w"
  proof (cases "dumps e resp")
    case (Inl err)
    then show ?thesis by (simp add: set_cache_def)
  next
    case (Inr p)
    with assms obtain err where "cache_setex e (cache_store w) (cache_key e qry)
                         (cache_ttl_seconds (config e)) p = Inl err"
      by (metis Inl_Inr_False)
    with Inr show ?thesis by (simp add: set_cache_def Let_def)
  qed
  show "cache_store (set_cache e qry resp w) = cache_store w"
  proof (cases "dumps e resp")
    case (Inl err)
    then show ?thesis by (simp add: set_cache_def)
  next
    case (Inr p)
    with assms obtain err where "cache_setex e (cache_store w) (cache_key e qry)
                         (cache_ttl_seconds (config e)) p = Inl err"
      by (metis Inl_Inr_False)
    with Inr show ?thesis by (simp add: set_cache_def Let_def)
  qed
qed

lemma search_miss:
  assumes "use_cache \<longrightarrow> fst (check_cache e qry (w\<lparr>clock_reads := Suc (clock_reads w)\<rparr>)) = None"
  shows "search e qry top_k use_cache use_reranker w =
     (let w2 = (if use_cache
                then w\<lparr>clock_reads := Suc (clock_reads w),
                       trace := trace w @ [CacheGet (cache_key e qry)]\<rparr>
                else w\<lparr>clock_reads := Suc (clock_reads w)\<rparr>)
      in case retrieve e qry top_k use_reranker (monotonic e (clock_reads w)) w2 of
           Inl err \<Rightarrow> Inl err
         | Inr (resp, w3) \<Rightarrow>
             Inr (resp, if use_cache \<and> results resp \<noteq> [] then set_cache e qry resp w3 else w3))"
proof (cases use_cache)
  case True
  let ?w1 = "w\<lparr>clock_reads := Suc (clock_reads w)\<rparr>"
  from True assms check_cache_world[of e qry ?w1]
  have "check_cache e qry ?w1 = (None, ?w1\<lparr>trace := trace ?w1 @ [CacheGet (cache_key e qry)]\<rparr>)"
    by (metis prod.collapse)
  with True show ?thesis by (simp add: search_def Let_def split: sum.splits prod.splits)
next
  case False
  then show ?thesis by (simp add: search_def Let_def split: sum.splits prod.splits)
qed

lemma search_response_of_retrieve:
  "map_sum id fst
     (case retrieve e qry top_k use_reranker t0 w of
        Inl err \<Rightarrow> Inl err
      | Inr (resp, w3) \<Rightarrow> Inr (resp, F resp w3))
   = map_sum id fst (retrieve e qry top_k use_reranker t0 w)"
  by (auto split: sum.splits)

lemma search_cases:
  fixes e :: "('v, 'p, 's) env" and w :: "'s world" and qry :: string and use_cache :: bool
  defines "w1 \<equiv> w\<lparr>clock_reads := Suc (clock_reads w)\<rparr>"
  defines "hit \<equiv> (if use_cache then fst (check_cache e qry w1) else None)"
  defines "w2 \<equiv> (if use_cache then w1\<lparr>trace := trace w1 @ [CacheGet (cache_key e qry)]\<rparr> else w1)"
  shows "search e qry top_k use_cache use_reranker w =
     (case hit of
        Some (Dict stored) \<Rightarrow> Inr (stored\<lparr>cached := True\<rparr>, w2)
      | Some NonDict \<Rightarrow> Inl TypeError
      | _ \<Rightarrow>
          (case retrieve e qry top_k use_reranker (monotonic e (clock_reads w)) w2 of
             Inl err \<Rightarrow> Inl err
           | Inr (resp, w3) \<Rightarrow>
               Inr (resp, if use_cache \<and> results resp \<noteq> [] then set_cache e qry resp w3
                          else w3)))"
proof (cases use_cache)
  case True
  have "check_cache e qry w1 = (hit, w2)"
    using check_cache_world[of e qry w1] True
    by (simp add: hit_def w2_def prod_eq_iff)
  with True show ?thesis
    by (simp add: search_def Let_def w1_def
          split: sum.splits prod.splits option.splits cached_value.splits)
next
  case False
  then show ?thesis
    by (simp add: search_def Let_def hit_def w2_def w1_def
          split: sum.splits prod.splits option.splits cached_value.splits)
qed

text \<open>
  C4. If reading the cache fails (the backend raises, or the payload cannot be decoded),
  \<^verbatim>\<open>search\<close> runs exactly as with a backend that reports a miss, and its response, or the
  error it ends in, is the one of the same search run with \<^verbatim>\<open>use_cache = False\<close>: an error
  comes from the pipeline, never from the cache. If writing fails (the backend raises on
  every payload, or no payload can be encoded), \<^verbatim>\<open>search\<close> runs exactly as with a backend
  whose store operation does nothing, and the store is left as it was.
\<close>

theorem cache_failures_swallowed:
  fixes e :: "('v, 'p, 's) env"
  shows
  "((\<exists>err. cache_get e (cache_store w) (cache_key e qry) = Inl err)
      \<or> (\<exists>p err. cache_get e (cache_store w) (cache_key e qry) = Inr (Some p)
                   \<and> loads e p = Inl err)
     \<longrightarrow> search e qry top_k use_cache use_reranker w
           = search (e\<lparr>cache_get := \<lambda>s k. Inr None\<rparr>) qry top_k use_cache use_reranker w
        \<and> map_sum id fst (search e qry top_k True use_reranker w)
           = map_sum id fst (search e qry top_k False use_reranker w))
   \<and> ((\<forall>p. \<exists>err. cache_setex e (cache_store w) (cache_key e qry)
                      (cache_ttl_seconds (config e)) p = Inl err)
       \<or> (\<forall>r. \<exists>err. dumps e r = Inl err)
     \<longrightarrow> search e qry top_k use_cache use_reranker w
           = search (e\<lparr>cache_setex := \<lambda>s k ttl p. Inr s\<rparr>) qry top_k use_cache use_reranker w
        \<and> (\<forall>resp w'. search e qry top_k use_cache use_reranker w = Inr (resp, w')
              \<longrightarrow> cache_store w' = cache_store w))"
proof (intro conjI impI)
  let ?w1 = "w\<lparr>clock_reads := Suc (clock_reads w)\<rparr>"
  let ?miss = "e\<lparr>cache_get := \<lambda>s k. Inr None\<rparr>"
  assume rd: "(\<exists>err. cache_get e (cache_store w) (cache_key e qry) = Inl err)
      \<or> (\<exists>p err. cache_get e (cache_store w) (cache_key e qry) = Inr (Some p)
                   \<and> loads e p = Inl err)"
  then have "(\<exists>err. cache_get e (cache_store ?w1) (cache_key e qry) = Inl err)
      \<or> (\<exists>p err. cache_get e (cache_store ?w1) (cache_key e qry) = Inr (Some p)
                   \<and> loads e p = Inl err)" by simp
  from check_cache_read_failure[OF this]
  have none: "fst (check_cache e qry ?w1) = None" by simp
  have none': "fst (check_cache ?miss qry ?w1) = None" by (simp add: check_cache_miss)
  show "search e qry top_k use_cache use_reranker w
           = search ?miss qry top_k use_cache use_reranker w"
    using none none'
    by (simp add: search_miss retrieve_ignores_cache set_cache_ignores_get
          cong: sum.case_cong prod.case_cong if_cong)
  have "same_mem (w\<lparr>clock_reads := Suc (clock_reads w),
                    trace := trace w @ [CacheGet (cache_key e qry)]\<rparr>) ?w1"
    by (simp add: same_mem_def)
  from retrieve_same[OF this]
  show "map_sum id fst (search e qry top_k True use_reranker w)
           = map_sum id fst (search e qry top_k False use_reranker w)"
    using none by (simp add: search_miss search_response_of_retrieve)
next
  let ?noop = "e\<lparr>cache_setex := \<lambda>s k ttl p. Inr s\<rparr>"
  let ?t0 = "monotonic e (clock_reads w)"
  assume wr: "(\<forall>p. \<exists>err. cache_setex e (cache_store w) (cache_key e qry)
                      (cache_ttl_seconds (config e)) p = Inl err)
       \<or> (\<forall>r. \<exists>err. dumps e r = Inl err)"
  define w2 where "w2 = (if use_cache
      then w\<lparr>clock_reads := Suc (clock_reads w)\<rparr>
            \<lparr>trace := trace (w\<lparr>clock_reads := Suc (clock_reads w)\<rparr>) @ [CacheGet (cache_key e qry)]\<rparr>
      else w\<lparr>clock_reads := Suc (clock_reads w)\<rparr>)"
  have store2: "cache_store w2 = cache_store w" by (simp add: w2_def)
  have tail: "(case retrieve e qry top_k use_reranker ?t0 w2 of
             Inl err \<Rightarrow> Inl err
           | Inr (resp, w3) \<Rightarrow>
               Inr (resp, if use_cache \<and> results resp \<noteq> [] then set_cache e qry resp w3
                          else w3))
        = (case retrieve e qry top_k use_reranker ?t0 w2 of
             Inl err \<Rightarrow> Inl err
           | Inr (resp, w3) \<Rightarrow>
               Inr (resp, if use_cache \<and> results resp \<noteq> [] then set_cache ?noop qry resp w3
                          else w3))"
  proof (cases "retrieve e qry top_k use_reranker ?t0 w2")
    case (Inl err)
    then show ?thesis by simp
  next
    case (Inr pair)
    obtain resp w3 where pair: "pair = (resp, w3)" by (cases pair)
    from retrieve_frame(1)[OF Inr[unfolded pair]] store2
    have "cache_store w3 = cache_store w" by simp
    with wr have "(\<forall>p. \<exists>err. cache_setex e (cache_store w3) (cache_key e qry)
                      (cache_ttl_seconds (config e)) p = Inl err)
       \<or> (\<forall>r. \<exists>err. dumps e r = Inl err)" by simp
    from set_cache_write_failure(1)[OF this] Inr pair show ?thesis by simp
  qed
  show "search e qry top_k use_cache use_reranker w
           = search ?noop qry top_k use_cache use_reranker w"
    unfolding search_cases
    by (simp add: check_cache_ignores_setex retrieve_ignores_cache tail[unfolded w2_def]
          cong: option.case_cong cached_value.case_cong)
  show "\<forall>resp w'. search e qry top_k use_cache use_reranker w = Inr (resp, w')
              \<longrightarrow> cache_store w' = cache_store w"
  proof (intro allI impI)
    fix resp w'
    assume run: "search e qry top_k use_cache use_reranker w = Inr (resp, w')"
    show "cache_store w' = cache_store w"
    proof (cases "retrieve e qry top_k use_reranker ?t0 w2")
      case (Inl err)
      with run show ?thesis
        unfolding search_cases
        by (auto simp: w2_def split: option.splits cached_value.splits if_splits)
    next
      case (Inr pair)
      obtain r3 w3 where pair: "pair = (r3, w3)" by (cases pair)
      from retrieve_frame(1)[OF Inr[unfolded pair]] store2
      have s3: "cache_store w3 = cache_store w" by simp
      with wr have "(\<forall>p. \<exists>err. cache_setex e (cache_store w3) (cache_key e qry)
                      (cache_ttl_seconds (config e)) p = Inl err)
         \<or> (\<forall>r. \<exists>err. dumps e r = Inl err)" by simp
      from set_cache_write_failure(2)[OF this] s3
      have "cache_store (set_cache e qry r3 w3) = cache_store w" by simp
      with run Inr pair s3 show ?thesis
        unfolding search_cases
        by (auto simp: w2_def split: option.splits cached_value.splits if_splits)
    qed
  qed
qed

lemma check_cache_lookup:
  "cache_store v = cache_store w \<Longrightarrow> fst (check_cache e qry v) = fst (check_cache e qry w)"
  by (simp add: check_cache_def Let_def split: sum.splits option.splits)

lemma check_cache_stored:
  assumes "cache_get e (cache_store w) (cache_key e qry) = Inr (Some p)"
    and "loads e p = Inr v"
  shows "fst (check_cache e qry w) = Some v"
  using assms by (simp add: check_cache_def Let_def)

lemma set_cache_stored:
  assumes "dumps e resp = Inr p"
    and "cache_setex e (cache_store w) (cache_key e qry) (cache_ttl_seconds (config e)) p = Inr s"
  shows "cache_store (set_cache e qry resp w) = s"
  using assms by (simp add: set_cache_def Let_def)

text \<open>
  C5. Let a first search with \<^verbatim>\<open>use_cache\<close> return a response with a non-empty result
  list, the codec reading back what it wrote and the backend returning what was stored
  (no expiry in between). Then a second search for the same query with \<^verbatim>\<open>use_cache\<close>,
  whatever its \<open>top_k\<close> and \<^verbatim>\<open>use_reranker\<close>, returns that response with \<^verbatim>\<open>cached\<close>
  set, and changes nothing but the clock and the trace, to which it adds the cache lookup
  only: no embedding, search or scoring call is made. Conversely, a search that returns an
  empty result list leaves the store as it was and makes no store call.
\<close>

theorem cache_round_trip:
  fixes e :: "('v, 'p, 's) env"
  shows
  "(search e qry k1 True rr1 w = Inr (r1, w1) \<and> results r1 \<noteq> []
      \<and> (\<forall>r. \<exists>p. dumps e r = Inr p \<and> loads e p = Inr (Dict r))
      \<and> (\<forall>s key ttl p. \<exists>s'. cache_setex e s key ttl p = Inr s'
                               \<and> cache_get e s' key = Inr (Some p))
     \<longrightarrow> search e qry k2 True rr2 w1 =
           Inr (r1\<lparr>cached := True\<rparr>,
                w1\<lparr>clock_reads := Suc (clock_reads w1),
                   trace := trace w1 @ [CacheGet (cache_key e qry)]\<rparr>))
   \<and> (search e qry k use_cache rr w = Inr (r, w') \<and> results r = []
     \<longrightarrow> cache_store w' = cache_store w
         \<and> (\<exists>evs. trace w' = trace w @ evs \<and> (\<forall>key ttl. CacheSetex key ttl \<notin> set evs)))"
proof (intro conjI impI)
  assume a: "search e qry k1 True rr1 w = Inr (r1, w1) \<and> results r1 \<noteq> []
      \<and> (\<forall>r. \<exists>p. dumps e r = Inr p \<and> loads e p = Inr (Dict r))
      \<and> (\<forall>s key ttl p. \<exists>s'. cache_setex e s key ttl p = Inr s'
                               \<and> cache_get e s' key = Inr (Some p))"
  then have first: "search e qry k1 True rr1 w = Inr (r1, w1)" and ne: "results r1 \<noteq> []"
    and codec: "\<And>r. \<exists>p. dumps e r = Inr p \<and> loads e p = Inr (Dict r)"
    and backend: "\<And>s key ttl p. \<exists>s'. cache_setex e s key ttl p = Inr s'
                               \<and> cache_get e s' key = Inr (Some p)"
    by blast+
  let ?key = "cache_key e qry"
  let ?u = "w\<lparr>clock_reads := Suc (clock_reads w)\<rparr>"
  let ?w2 = "?u\<lparr>trace := trace ?u @ [CacheGet ?key]\<rparr>"
  let ?v = "w1\<lparr>clock_reads := Suc (clock_reads w1)\<rparr>"
  have hit2: "fst (check_cache e qry ?v) = Some (Dict (r1\<lparr>cached := False\<rparr>))
            \<or> (\<exists>stored. fst (check_cache e qry ?v) = Some (Dict stored)
                         \<and> r1 = stored\<lparr>cached := True\<rparr>)"
  proof (cases "fst (check_cache e qry ?u)")
    case None
    with first obtain w3 where ret: "retrieve e qry k1 rr1 (monotonic e (clock_reads w)) ?w2
          = Inr (r1, w3)"
      and w1: "w1 = set_cache e qry r1 w3"
      using ne unfolding search_cases by (auto split: sum.splits if_splits)
    from codec obtain p where p: "dumps e r1 = Inr p" "loads e p = Inr (Dict r1)" by blast
    from backend obtain s' where s': "cache_setex e (cache_store w3) ?key
          (cache_ttl_seconds (config e)) p = Inr s'" "cache_get e s' ?key = Inr (Some p)"
      by blast
    from set_cache_stored[OF p(1) s'(1)] w1 have "cache_store ?v = s'" by simp
    with s'(2) have "cache_get e (cache_store ?v) ?key = Inr (Some p)" by simp
    from check_cache_stored[OF this p(2)] retrieve_frame(3)[OF ret]
    show ?thesis by simp
  next
    case (Some v)
    show ?thesis
    proof (cases v)
      case Falsy
      with Some first obtain w3 where ret: "retrieve e qry k1 rr1 (monotonic e (clock_reads w)) ?w2
            = Inr (r1, w3)"
        and w1: "w1 = set_cache e qry r1 w3"
        using ne unfolding search_cases by (auto split: sum.splits if_splits)
      from codec obtain p where p: "dumps e r1 = Inr p" "loads e p = Inr (Dict r1)" by blast
      from backend obtain s' where s': "cache_setex e (cache_store w3) ?key
            (cache_ttl_seconds (config e)) p = Inr s'" "cache_get e s' ?key = Inr (Some p)"
        by blast
      from set_cache_stored[OF p(1) s'(1)] w1 have "cache_store ?v = s'" by simp
      with s'(2) have "cache_get e (cache_store ?v) ?key = Inr (Some p)" by simp
      from check_cache_stored[OF this p(2)] retrieve_frame(3)[OF ret]
      show ?thesis by simp
    next
      case NonDict
      with Some first show ?thesis unfolding search_cases by simp
    next
      case (Dict stored)
      with Some first have r1: "r1 = stored\<lparr>cached := True\<rparr>" and w1: "w1 = ?w2"
        unfolding search_cases by simp_all
      have "cache_store ?v = cache_store ?u" by (simp add: w1)
      from check_cache_lookup[OF this, of e qry] Some Dict r1 show ?thesis by simp
    qed
  qed
  have same: "r1\<lparr>cached := False\<rparr>\<lparr>cached := True\<rparr> = r1\<lparr>cached := True\<rparr>" by simp
  from hit2 show "search e qry k2 True rr2 w1 =
           Inr (r1\<lparr>cached := True\<rparr>,
                w1\<lparr>clock_reads := Suc (clock_reads w1),
                   trace := trace w1 @ [CacheGet (cache_key e qry)]\<rparr>)"
    unfolding search_cases[of e qry k2 True rr2 w1] by auto
next
  assume b: "search e qry k use_cache rr w = Inr (r, w') \<and> results r = []"
  let ?u = "w\<lparr>clock_reads := Suc (clock_reads w)\<rparr>"
  define w2 where "w2 = (if use_cache then ?u\<lparr>trace := trace ?u @ [CacheGet (cache_key e qry)]\<rparr>
                         else ?u)"
  have w2: "cache_store w2 = cache_store w"
    "\<exists>evs. trace w2 = trace w @ evs \<and> (\<forall>key ttl. CacheSetex key ttl \<notin> set evs)"
    by (auto simp: w2_def)
  from b have "w' = w2 \<or> (\<exists>t0. retrieve e qry k rr t0 w2 = Inr (r, w'))"
    unfolding search_cases w2_def[symmetric]
    by (auto split: option.splits cached_value.splits sum.splits if_splits)
  then have "cache_store w' = cache_store w
         \<and> (\<exists>evs. trace w' = trace w @ evs \<and> (\<forall>key ttl. CacheSetex key ttl \<notin> set evs))"
  proof
    assume "w' = w2"
    with w2 show ?thesis by simp
  next
    assume "\<exists>t0. retrieve e qry k rr t0 w2 = Inr (r, w')"
    then obtain t0 where ret: "retrieve e qry k rr t0 w2 = Inr (r, w')" by blast
    from retrieve_frame(2)[OF ret] obtain evs
      where evs: "trace w' = trace w2 @ evs" "\<forall>key ttl. CacheSetex key ttl \<notin> set evs" by blast
    from w2(2) obtain evs0
      where evs0: "trace w2 = trace w @ evs0" "\<forall>key ttl. CacheSetex key ttl \<notin> set evs0" by blast
    from evs evs0 have "trace w' = trace w @ (evs0 @ evs)
        \<and> (\<forall>key ttl. CacheSetex key ttl \<notin> set (evs0 @ evs))" by simp
    with retrieve_frame(1)[OF ret] w2(1) show ?thesis by metis
  qed
  then show "cache_store w' = cache_store w"
    and "\<exists>evs. trace w' = trace w @ evs \<and> (\<forall>key ttl. CacheSetex key ttl \<notin> set evs)"
    by simp_all
qed

lemma search_view_Inr:
  assumes "search_view e qry top_k use_cache use_reranker w = Inr (ids, c, evs)"
  shows "\<exists>resp w'. search e qry top_k use_cache use_reranker w = Inr (resp, w')
           \<and> map chunk_id (results resp) = ids \<and> cached resp = c \<and> trace w' = evs"
  using assms
  by (cases "search e qry top_k use_cache use_reranker w") (auto simp: search_view_def)

lemma down_env_run:
  "search_view down_env ''q'' 2 True False sample_world =
     Inr ([2, 1], False,
          [CacheGet ''rag:cache:q'', EmbedQuery ''q'', VectorSearch 20, KeywordSearch ''q'' 20,
           CacheSetex ''rag:cache:q'' 3600])"
  by code_simp

theorem cache_failures_swallowed_witness:
  "search down_env ''q'' 2 True False sample_world
     = search (down_env\<lparr>cache_get := \<lambda>s k. Inr None\<rparr>) ''q'' 2 True False sample_world
   \<and> map_sum id fst (search down_env ''q'' 2 True False sample_world)
     = map_sum id fst (search down_env ''q'' 2 False False sample_world)
   \<and> search down_env ''q'' 2 True False sample_world
     = search (down_env\<lparr>cache_setex := \<lambda>s k ttl p. Inr s\<rparr>) ''q'' 2 True False sample_world
   \<and> (\<exists>resp w'. search down_env ''q'' 2 True False sample_world = Inr (resp, w')
         \<and> map chunk_id (results resp) = [2, 1]
         \<and> cache_store w' = cache_store sample_world)"
proof -
  have rd: "\<exists>err. cache_get down_env (cache_store sample_world) (cache_key down_env ''q'') = Inl err"
    by (simp add: down_env_def)
  have wr: "\<forall>p. \<exists>err. cache_setex down_env (cache_store sample_world) (cache_key down_env ''q'')
                        (cache_ttl_seconds (config down_env)) p = Inl err"
    by (simp add: down_env_def)
  note t = cache_failures_swallowed[where e = down_env and w = sample_world and qry = "''q''"
      and top_k = 2 and use_cache = True and use_reranker = False]
  from search_view_Inr[OF down_env_run] obtain resp w'
    where run: "search down_env ''q'' 2 True False sample_world = Inr (resp, w')"
      and ids: "map chunk_id (results resp) = [2, 1]" by auto
  from t rd have a: "search down_env ''q'' 2 True False sample_world
     = search (down_env\<lparr>cache_get := \<lambda>s k. Inr None\<rparr>) ''q'' 2 True False sample_world"
    and b: "map_sum id fst (search down_env ''q'' 2 True False sample_world)
     = map_sum id fst (search down_env ''q'' 2 False False sample_world)"
    by auto
  from t wr have c: "search down_env ''q'' 2 True False sample_world
     = search (down_env\<lparr>cache_setex := \<lambda>s k ttl p. Inr s\<rparr>) ''q'' 2 True False sample_world"
    and d: "\<forall>resp w'. search down_env ''q'' 2 True False sample_world = Inr (resp, w')
              \<longrightarrow> cache_store w' = cache_store sample_world"
    by auto
  from d run have "cache_store w' = cache_store sample_world" by simp
  with run ids have "\<exists>resp w'. search down_env ''q'' 2 True False sample_world = Inr (resp, w')
         \<and> map chunk_id (results resp) = [2, 1]
         \<and> cache_store w' = cache_store sample_world" by (intro exI conjI)
  with a b c show ?thesis by (intro conjI)
qed

lemma sample_env_run:
  "search_view sample_env ''q'' 2 True False sample_world =
     Inr ([2, 1], False,
          [CacheGet ''rag:cache:q'', EmbedQuery ''q'', VectorSearch 20, KeywordSearch ''q'' 20,
           CacheSetex ''rag:cache:q'' 3600])"
  by code_simp

lemma empty_env_run:
  "search_view empty_env ''q'' 2 True False sample_world =
     Inr ([], False,
          [CacheGet ''rag:cache:q'', EmbedQuery ''q'', VectorSearch 20, KeywordSearch ''q'' 20])"
  by code_simp

theorem cache_round_trip_witness:
  "(\<exists>r1 w1. search sample_env ''q'' 2 True False sample_world = Inr (r1, w1)
       \<and> map chunk_id (results r1) = [2, 1]
       \<and> search sample_env ''q'' 5 True False w1 =
           Inr (r1\<lparr>cached := True\<rparr>,
                w1\<lparr>clock_reads := Suc (clock_reads w1),
                   trace := trace w1 @ [CacheGet (cache_key sample_env ''q'')]\<rparr>))
   \<and> (\<exists>r w'. search empty_env ''q'' 2 True False sample_world = Inr (r, w')
       \<and> results r = [] \<and> cache_store w' = cache_store sample_world)"
proof -
  have codec: "\<forall>r. \<exists>p. dumps sample_env r = Inr p \<and> loads sample_env p = Inr (Dict r)"
    by (simp add: sample_env_def)
  have backend: "\<forall>s key ttl p. \<exists>s'. cache_setex sample_env s key ttl p = Inr s'
                               \<and> cache_get sample_env s' key = Inr (Some p)"
    by (simp add: sample_env_def)
  from search_view_Inr[OF sample_env_run] obtain r1 w1
    where run: "search sample_env ''q'' 2 True False sample_world = Inr (r1, w1)"
      and ids: "map chunk_id (results r1) = [2, 1]" by auto
  from ids have ne: "results r1 \<noteq> []" by auto
  from cache_round_trip[where e = sample_env and qry = "''q''" and ?k1.0 = 2 and ?rr1.0 = False
      and w = sample_world and ?r1.0 = r1 and ?w1.0 = w1 and ?k2.0 = 5 and ?rr2.0 = False]
    run ne codec backend
  have second: "search sample_env ''q'' 5 True False w1 =
           Inr (r1\<lparr>cached := True\<rparr>,
                w1\<lparr>clock_reads := Suc (clock_reads w1),
                   trace := trace w1 @ [CacheGet (cache_key sample_env ''q'')]\<rparr>)"
    by simp
  from search_view_Inr[OF empty_env_run] obtain r w'
    where run0: "search empty_env ''q'' 2 True False sample_world = Inr (r, w')"
      and "map chunk_id (results r) = []" by auto
  then have empty: "results r = []" by simp
  from cache_round_trip[where e = empty_env and qry = "''q''" and k = 2 and use_cache = True
      and rr = False and w = sample_world and r = r and w' = w'] run0 empty
  have "cache_store w' = cache_store sample_world" by simp
  with run0 empty have "\<exists>r w'. search empty_env ''q'' 2 True False sample_world = Inr (r, w')
       \<and> results r = [] \<and> cache_store w' = cache_store sample_world" by (intro exI conjI)
  moreover from run ids second
  have "\<exists>r1 w1. search sample_env ''q'' 2 True False sample_world = Inr (r1, w1)
       \<and> map chunk_id (results r1) = [2, 1]
       \<and> search sample_env ''q'' 5 True False w1 =
           Inr (r1\<lparr>cached := True\<rparr>,
                w1\<lparr>clock_reads := Suc (clock_reads w1),
                   trace := trace w1 @ [CacheGet (cache_key sample_env ''q'')]\<rparr>)"
    by (intro exI conjI)
  ultimately show ?thesis by (intro conjI)
qed

end
